theory Spec2Isabelle
  imports Main "HOL-Library.Word" "HOL-Library.Signed_Division"
begin

section \<open>Machine types of the target (Arduino Micro Pro, ATmega32U4)\<close>

text \<open>
  On the AVR target \<^verbatim>\<open>unsigned int\<close> is 16 bits wide and \<^verbatim>\<open>signed long\<close> is 32 bits wide.
  A \<^verbatim>\<open>signed long\<close> is kept as a 32-bit word and read with \<open>sint\<close>; comparisons are the
  signed ones (\<open><s\<close>, \<open>\<le>s\<close>) and \<^verbatim>\<open>/\<close> is the truncating division of C. Arithmetic on
  the words wraps around, where C++ leaves signed overflow undefined; the lemmas
  \<open>percentChange_sint\<close> and \<open>rateOfChange_sint\<close> show that in a state a run can reach the
  operations of a classification cycle have the values they have over the integers, so
  that no overflow occurs there.
\<close>

type_synonym uint16 = "16 word"
type_synonym slong = "32 word"
type_synonym ulong = "32 word"

definition ldiv :: "slong \<Rightarrow> slong \<Rightarrow> slong" where
  "ldiv a b = word_of_int (sint a sdiv sint b)"

text \<open>The \<^verbatim>\<open>abs\<close> macro of the Arduino core: \<^verbatim>\<open>((x)>0?(x):-(x))\<close>.\<close>

definition abs_long :: "slong \<Rightarrow> slong" where
  "abs_long x = (if 0 <s x then x else - x)"

section \<open>Configuration macros\<close>

definition SUDDEN_CHANGE_THRESHOLD :: slong where
  "SUDDEN_CHANGE_THRESHOLD = 15"

definition CHANGE_RATE_THRESHOLD :: slong where
  "CHANGE_RATE_THRESHOLD = 5"

definition wigglePeriod :: int where
  "wigglePeriod = 10"

definition wigglePeriodVariation :: int where
  "wigglePeriodVariation = 3"

definition SizeOfAnalogArray :: nat where
  "SizeOfAnalogArray = 100"

definition HISTORY_SIZE :: nat where
  "HISTORY_SIZE = 5"

section \<open>Global variables\<close>

text \<open>
  The two buffer positions are \<^verbatim>\<open>unsigned int\<close> in the sketch; they are kept as naturals and
  an access outside the array (undefined in C++) is an error of the model, so the positions
  never come near the 16-bit limit in a run that has not failed. The two wiggle counters are
  \<^verbatim>\<open>int\<close>; lemma \<open>sendWiggle_timer_inv\<close> below shows that they stay between 0 and 13.
\<close>

record state =
  AnalogArray :: "uint16 list"
  AnalogArrayPosition :: nat
  lightStatus :: bool
  priorSum :: slong
  sumHistory :: "slong list"
  historyPosition :: nat
  historyFilled :: bool
  wiggleSec :: int
  nextWiggleTime :: int

text \<open>The values of the globals when \<^verbatim>\<open>setup\<close> starts: the initialisers of the sketch, and
  zero for the globals that have none.\<close>

definition power_on :: state where
  "power_on =
     \<lparr> AnalogArray = replicate SizeOfAnalogArray 0,
       AnalogArrayPosition = 0,
       lightStatus = True,
       priorSum = 0,
       sumHistory = replicate HISTORY_SIZE 0,
       historyPosition = 0,
       historyFilled = False,
       wiggleSec = 0,
       nextWiggleTime = wigglePeriod \<rparr>"

section \<open>What the interrupt routines can fail with, and what they send out\<close>

datatype error = DivisionByZero | IndexOutOfBounds

datatype message =
    Text string
  | Diagnostic ulong slong slong slong slong slong
  | GradualIgnored slong slong
  | NeedWiggle int

datatype effect =
    SerialPrintln message
  | MouseMove int int int
  | Delay nat
  | LedWrite bool

text \<open>The idiom \<^verbatim>\<open>if (Serial) Serial.println(m)\<close>: the line goes out when the serial port is
  open, and is dropped otherwise.\<close>

definition println :: "bool \<Rightarrow> message \<Rightarrow> effect list" where
  "println serial m = (if serial then [SerialPrintln m] else [])"

section \<open>setup\<close>

text \<open>
  \<open>rd k\<close> is the result of the \<open>k\<close>-th call of \<^verbatim>\<open>analogRead(photoCellSense)\<close> after power-on.
  The pre-fill loop increments \<^verbatim>\<open>counter\<close> in its header and once more in the subscript
  \<^verbatim>\<open>AnalogArray[counter++]\<close>. The three loops of \<^verbatim>\<open>setup\<close> and the summation loop of
  \<^verbatim>\<open>readAnalogIntoArray\<close> are the recursive functions below. The pin, timer, random-seed,
  serial and mouse initialisation of \<^verbatim>\<open>setup\<close> touches none of the globals and is left out.
\<close>

function prefill :: "(nat \<Rightarrow> uint16) \<Rightarrow> nat \<Rightarrow> nat \<Rightarrow> uint16 list \<Rightarrow> uint16 list" where
  "prefill rd k counter arr =
     (if counter < SizeOfAnalogArray
      then prefill rd (k + 1) (counter + 1 + 1) (arr[counter := rd k])
      else arr)"
  by pat_completeness auto
termination
  by (relation "measure (\<lambda>(rd, k, counter, arr). SizeOfAnalogArray - counter)") auto

function sumLoop :: "nat \<Rightarrow> slong \<Rightarrow> uint16 list \<Rightarrow> slong" where
  "sumLoop counter acc arr =
     (if counter < SizeOfAnalogArray
      then sumLoop (counter + 1) (acc + ucast (arr ! counter)) arr
      else acc)"
  by pat_completeness auto
termination
  by (relation "measure (\<lambda>(counter, acc, arr). SizeOfAnalogArray - counter)") auto

function fillHistory :: "nat \<Rightarrow> slong \<Rightarrow> slong list \<Rightarrow> slong list" where
  "fillHistory i v hist =
     (if i < HISTORY_SIZE then fillHistory (i + 1) v (hist[i := v]) else hist)"
  by pat_completeness auto
termination
  by (relation "measure (\<lambda>(i, v, hist). HISTORY_SIZE - i)") auto

declare prefill.simps [simp del] sumLoop.simps [simp del] fillHistory.simps [simp del]

definition setup_sketch :: "(nat \<Rightarrow> uint16) \<Rightarrow> state" where
  "setup_sketch rd =
     (let arr = prefill rd 0 0 (AnalogArray power_on);
          initialSum = sumLoop 0 0 arr
      in power_on
           \<lparr> AnalogArray := arr,
             sumHistory := fillHistory 0 initialSum (sumHistory power_on),
             priorSum := initialSum \<rparr>)"

section \<open>readAnalogIntoArray (Timer1)\<close>

text \<open>
  The block that runs when the write position has wrapped to zero. \<open>serial\<close> is the value
  of \<^verbatim>\<open>Serial\<close> and \<open>now\<close> the value of \<^verbatim>\<open>millis()\<close> during the call. The two divisions are
  undefined in C++ when the divisor is zero; the model fails there.
\<close>

definition classificationCycle :: "bool \<Rightarrow> ulong \<Rightarrow> state \<Rightarrow> error + state \<times> effect list" where
  "classificationCycle serial now s =
     (let sum = sumLoop 0 0 (AnalogArray s);
          diff = sum - priorSum s
      in if priorSum s = 0 then Inl DivisionByZero
      else let percentChange = ldiv (diff * 100) (priorSum s)
      in if \<not> historyPosition s < HISTORY_SIZE then Inl IndexOutOfBounds
      else let oldestSum = sumHistory s ! historyPosition s;
               totalDiff = sum - oldestSum
      in if oldestSum * of_nat HISTORY_SIZE = 0 then Inl DivisionByZero
      else let rateOfChange = ldiv (totalDiff * 100) (oldestSum * of_nat HISTORY_SIZE);
               position = (historyPosition s + 1) mod HISTORY_SIZE;
               filled = (if position = 0 then True else historyFilled s);
               line = println serial
                        (Diagnostic now (priorSum s) sum diff percentChange rateOfChange);
               s1 = s \<lparr> sumHistory := (sumHistory s)[historyPosition s := sum],
                        historyPosition := position,
                        historyFilled := filled,
                        priorSum := sum \<rparr>
      in if filled then
           if SUDDEN_CHANGE_THRESHOLD <s percentChange
                \<and> CHANGE_RATE_THRESHOLD <s abs_long rateOfChange
           then Inr (s1 \<lparr> lightStatus := True \<rparr>,
                     line @ println serial (Text ''Lights Detected ON (sudden change)''))
           else if percentChange <s - SUDDEN_CHANGE_THRESHOLD
                \<and> CHANGE_RATE_THRESHOLD <s abs_long rateOfChange
           then Inr (s1 \<lparr> lightStatus := False \<rparr>,
                     line @ println serial (Text ''Lights Detected OFF (sudden change)''))
           else if 5 <s abs_long percentChange
                \<and> abs_long rateOfChange \<le>s CHANGE_RATE_THRESHOLD
           then Inr (s1, line @ println serial (GradualIgnored percentChange rateOfChange))
           else Inr (s1, line)
         else Inr (s1, line))"

definition readAnalogIntoArray ::
    "bool \<Rightarrow> ulong \<Rightarrow> uint16 \<Rightarrow> state \<Rightarrow> error + state \<times> effect list" where
  "readAnalogIntoArray serial now reading s =
     (if \<not> AnalogArrayPosition s < SizeOfAnalogArray then Inl IndexOutOfBounds
      else let s1 = s \<lparr> AnalogArray := (AnalogArray s)[AnalogArrayPosition s := reading],
                        AnalogArrayPosition :=
                          (AnalogArrayPosition s + 1) mod SizeOfAnalogArray \<rparr>
      in if AnalogArrayPosition s1 = 0 then classificationCycle serial now s1
         else Inr (s1, []))"

section \<open>sendWiggle (Timer3)\<close>

text \<open>
  \<open>rT\<close> is what \<^verbatim>\<open>random(-wigglePeriodVariation, wigglePeriodVariation + 1)\<close> returns,
  \<open>rX\<close> and \<open>rY\<close> what the two calls \<^verbatim>\<open>random(2)\<close> return.
\<close>

definition sendWiggle :: "bool \<Rightarrow> int \<Rightarrow> int \<Rightarrow> int \<Rightarrow> state \<Rightarrow> state \<times> effect list" where
  "sendWiggle serial rT rX rY s =
     (let s1 = s \<lparr> wiggleSec := wiggleSec s + 1 \<rparr>
      in if nextWiggleTime s1 \<le> wiggleSec s1 then
           let drawn = wigglePeriod + rT;
               next = (if drawn < 3 then 3 else drawn);
               s2 = s1 \<lparr> wiggleSec := 0, nextWiggleTime := next \<rparr>
           in if lightStatus s2 then
                let moveX = (if rX = 0 then 1 else - 1);
                    moveY = (if rY = 0 then 1 else - 1)
                in (s2, println serial (NeedWiggle next)
                        @ [MouseMove moveX moveY 0, Delay 1,
                           MouseMove (- moveX) (- moveY) 0, LedWrite True])
              else (s2, println serial (Text ''Do not wiggle the mouse'') @ [LedWrite False])
         else (s1, []))"

text \<open>The pointer movements among the outputs, in order.\<close>

fun moves :: "effect list \<Rightarrow> (int \<times> int) list" where
  "moves [] = []"
| "moves (MouseMove x y w # out) = (x, y) # moves out"
| "moves (_ # out) = moves out"

definition fires :: "state \<Rightarrow> bool" where
  "fires s = (nextWiggleTime s \<le> wiggleSec s + 1)"

section \<open>The quantities of the specification, over the integers\<close>

text \<open>
  The window sum as a mathematical integer, and the two percentages as the specification
  writes them, with the division of C (rounding towards zero). The lemmas
  \<open>percentChange_sint\<close> and \<open>rateOfChange_sint\<close> below show that the 32-bit computation of
  \<open>classificationCycle\<close> yields exactly these values for every sum of a window.
\<close>

definition windowSum :: "uint16 list \<Rightarrow> int" where
  "windowSum arr = (\<Sum>i = 0..<SizeOfAnalogArray. uint (arr ! i))"

definition spec_percentChange :: "int \<Rightarrow> int \<Rightarrow> int" where
  "spec_percentChange new prior = ((new - prior) * 100) sdiv prior"

definition spec_rateOfChange :: "int \<Rightarrow> int \<Rightarrow> int" where
  "spec_rateOfChange new oldest = ((new - oldest) * 100) sdiv (oldest * 5)"

section \<open>States that a run can reach\<close>

text \<open>
  A window sum is the sum of 100 values of 16 bits, so it lies between 0 and 6553500. In
  a well-formed state both arrays have their declared length, both positions are inside
  them, and \<open>priorSum\<close> and every entry of \<open>sumHistory\<close> are in the range of a window sum.
  \<open>setup_sketch\<close> establishes this and both interrupt routines keep it
  (\<open>wf_setup\<close>, \<open>wf_readAnalogIntoArray\<close>, \<open>wf_sendWiggle\<close>).
\<close>

definition sum_ok :: "slong \<Rightarrow> bool" where
  "sum_ok x = (0 \<le> sint x \<and> sint x \<le> 6553500)"

definition wf :: "state \<Rightarrow> bool" where
  "wf s =
     (length (AnalogArray s) = SizeOfAnalogArray \<and>
      AnalogArrayPosition s < SizeOfAnalogArray \<and>
      length (sumHistory s) = HISTORY_SIZE \<and>
      historyPosition s < HISTORY_SIZE \<and>
      sum_ok (priorSum s) \<and>
      list_all sum_ok (sumHistory s))"

text \<open>The value \<^verbatim>\<open>historyFilled\<close> has when a cycle started in \<open>s\<close> reaches the test
  \<^verbatim>\<open>if (historyFilled)\<close>, the two percentages of that cycle, and the state the cycle leaves
  behind apart from \<open>lightStatus\<close>.\<close>

definition primed_after :: "state \<Rightarrow> bool" where
  "primed_after s = (historyFilled s \<or> (historyPosition s + 1) mod HISTORY_SIZE = 0)"

definition oldestSum :: "state \<Rightarrow> slong" where
  "oldestSum s = sumHistory s ! historyPosition s"

definition cycle_percentChange :: "state \<Rightarrow> int" where
  "cycle_percentChange s = spec_percentChange (windowSum (AnalogArray s)) (sint (priorSum s))"

definition cycle_rateOfChange :: "state \<Rightarrow> int" where
  "cycle_rateOfChange s = spec_rateOfChange (windowSum (AnalogArray s)) (sint (oldestSum s))"

definition cycle_state :: "state \<Rightarrow> state" where
  "cycle_state s =
     s \<lparr> sumHistory := (sumHistory s)[historyPosition s := sumLoop 0 0 (AnalogArray s)],
         historyPosition := (historyPosition s + 1) mod HISTORY_SIZE,
         historyFilled := primed_after s,
         priorSum := sumLoop 0 0 (AnalogArray s) \<rparr>"

section \<open>Example states\<close>

text \<open>The scenario of the README's serial log: the sum of the last five seconds was 45200
  and the window now holds 100 readings of 678.\<close>

definition lit_example :: state where
  "lit_example =
     \<lparr> AnalogArray = replicate 100 678,
       AnalogArrayPosition = 0,
       lightStatus = False,
       priorSum = 45200,
       sumHistory = replicate 5 45200,
       historyPosition = 0,
       historyFilled = True,
       wiggleSec = 0,
       nextWiggleTime = 10 \<rparr>"

section \<open>Runs of the sketch\<close>

text \<open>
  \<^verbatim>\<open>loop\<close> is empty: after \<^verbatim>\<open>setup\<close> the sketch only serves its two timer interrupts. A
  run is the list of the interrupts served, each with what its routine reads from the
  environment. The first failing routine ends the run.
\<close>

datatype interrupt =
    Timer1 bool ulong uint16
  | Timer3 bool int int int

fun isr :: "interrupt \<Rightarrow> state \<Rightarrow> error + state \<times> effect list" where
  "isr (Timer1 serial now reading) s = readAnalogIntoArray serial now reading s"
| "isr (Timer3 serial rT rX rY) s = Inr (sendWiggle serial rT rX rY s)"

fun run :: "interrupt list \<Rightarrow> state \<Rightarrow> error + state \<times> effect list" where
  "run [] s = Inr (s, [])"
| "run (i # rest) s =
     (case isr i s of
        Inl e \<Rightarrow> Inl e
      | Inr (s1, out1) \<Rightarrow>
          (case run rest s1 of
             Inl e \<Rightarrow> Inl e
           | Inr (s2, out2) \<Rightarrow> Inr (s2, out1 @ out2)))"

text \<open>The net pointer displacement of a list of movements.\<close>

fun displacement :: "(int \<times> int) list \<Rightarrow> int \<times> int" where
  "displacement [] = (0, 0)"
| "displacement ((x, y) # ms) = (x + fst (displacement ms), y + snd (displacement ms))"

text \<open>A window is a list of consecutive Timer1 interrupts, each given by the value of
  \<^verbatim>\<open>Serial\<close>, of \<^verbatim>\<open>millis()\<close> and of \<^verbatim>\<open>analogRead\<close> during the call.\<close>

type_synonym sample = "bool \<times> ulong \<times> uint16"

definition window :: "sample list \<Rightarrow> interrupt list" where
  "window w = map (\<lambda>(serial, now, reading). Timer1 serial now reading) w"

definition readings :: "sample list \<Rightarrow> uint16 list" where
  "readings w = map (\<lambda>(serial, now, reading). reading) w"

text \<open>
  \<open>sudden_off s\<close>: the cycle that runs on the window held in \<open>s\<close> is a sudden-change OFF
  classification. \<open>turns_off i s\<close>: the interrupt \<open>i\<close>, served in \<open>s\<close>, completes a window whose
  cycle is one. \<open>never_off ins s\<close>: no interrupt of the run \<open>ins\<close> from \<open>s\<close> does.
\<close>

definition sudden_off :: "state \<Rightarrow> bool" where
  "sudden_off s =
     (primed_after s \<and> cycle_percentChange s < - 15 \<and> 5 < \<bar>cycle_rateOfChange s\<bar>)"

fun turns_off :: "interrupt \<Rightarrow> state \<Rightarrow> bool" where
  "turns_off (Timer1 serial now reading) s =
     (AnalogArrayPosition s + 1 = SizeOfAnalogArray \<and>
      sudden_off (s \<lparr> AnalogArray := (AnalogArray s)[AnalogArrayPosition s := reading] \<rparr>))"
| "turns_off (Timer3 serial rT rX rY) s = False"

fun never_off :: "interrupt list \<Rightarrow> state \<Rightarrow> bool" where
  "never_off [] s = True"
| "never_off (i # rest) s =
     (\<not> turns_off i s \<and>
      (case isr i s of Inl e \<Rightarrow> True | Inr (s1, out1) \<Rightarrow> never_off rest s1))"

text \<open>The history ring read from its oldest entry to its newest.\<close>

definition recent :: "state \<Rightarrow> slong list" where
  "recent s = rotate (historyPosition s) (sumHistory s)"

text \<open>A dark, primed state whose last five window sums were all 50000.\<close>

definition switch_example :: state where
  "switch_example =
     \<lparr> AnalogArray = replicate 100 500,
       AnalogArrayPosition = 0,
       lightStatus = False,
       priorSum = 50000,
       sumHistory = replicate 5 50000,
       historyPosition = 0,
       historyFilled = True,
       wiggleSec = 0,
       nextWiggleTime = 10 \<rparr>"

section \<open>A linear drift\<close>

text \<open>
  The window sum \<open>i\<close> cycles into a drift that starts from the baseline \<open>100 * d\<close> and moves
  by \<open>d\<close> (1 percent of the baseline) per cycle, upwards for \<open>dir = 1\<close> and downwards for
  \<open>dir = -1\<close>; before the drift (\<open>i \<le> 0\<close>) the sum is the baseline.
\<close>

definition level :: "int \<Rightarrow> int \<Rightarrow> int \<Rightarrow> int" where
  "level d dir i = (100 + dir * max 0 i) * d"

text \<open>The flag at the end of a run, if the run has not failed.\<close>

definition flag_after :: "interrupt list \<Rightarrow> state \<Rightarrow> bool option" where
  "flag_after ins s =
     (case run ins s of Inl e \<Rightarrow> None | Inr (s', out) \<Rightarrow> Some (lightStatus s'))"

text \<open>One second at a constant reading of 100.\<close>

definition steady_window :: "sample list" where
  "steady_window = replicate SizeOfAnalogArray (False, 0, 100)"

text \<open>
  A dusk: the room is lit, the last five window sums were 10000 (100 readings of 100), and
  the reading then falls by 1 per second, so that the window sums are 9900, 9800, ..., 500:
  a linear drift of 1 percent of the baseline per cycle over 95 cycles. \<open>dusk_start\<close> is the
  state of the classifier before the first of these cycles.
\<close>

definition dusk_start :: state where
  "dusk_start =
     \<lparr> AnalogArray = replicate 100 100,
       AnalogArrayPosition = 0,
       lightStatus = True,
       priorSum = 10000,
       sumHistory = replicate 5 10000,
       historyPosition = 0,
       historyFilled = True,
       wiggleSec = 0,
       nextWiggleTime = 10 \<rparr>"

definition dusk_trace :: "sample list list" where
  "dusk_trace = map (\<lambda>j. replicate SizeOfAnalogArray (False, 0, of_nat (99 - j))) [0..<95]"

text \<open>The state \<open>k\<close> windows into a drift, and the two percentages of the next cycle.\<close>

definition on_drift :: "int \<Rightarrow> int \<Rightarrow> bool \<Rightarrow> nat \<Rightarrow> state \<Rightarrow> bool" where
  "on_drift d dir flag k t =
     (wf t \<and> AnalogArrayPosition t = 0 \<and> historyFilled t \<and> lightStatus t = flag \<and>
      sint (priorSum t) = level d dir (int k) \<and>
      map sint (recent t) =
        [level d dir (int k - 4), level d dir (int k - 3), level d dir (int k - 2),
         level d dir (int k - 1), level d dir (int k)])"

section \<open>Dark rooms\<close>


fun reads_nonzero :: "interrupt \<Rightarrow> bool" where
  "reads_nonzero (Timer1 serial now reading) = (reading \<noteq> 0)"
| "reads_nonzero (Timer3 serial rT rX rY) = True"

fun steady :: "uint16 \<Rightarrow> interrupt \<Rightarrow> bool" where
  "steady c (Timer1 serial now reading) = (reading = c)"
| "steady c (Timer3 serial rT rX rY) = True"

definition live :: "state \<Rightarrow> bool" where
  "live s =
     (wf s \<and> 0 < sint (priorSum s) \<and> list_all (\<lambda>h. 0 < sint h) (sumHistory s) \<and>
      (0 < AnalogArrayPosition s \<longrightarrow> AnalogArray s ! 0 \<noteq> 0))"

definition settled :: "uint16 \<Rightarrow> state \<Rightarrow> bool" where
  "settled c s =
     (live s \<and> lightStatus s \<and> sint (priorSum s) \<le> 100 * uint c \<and>
      take (AnalogArrayPosition s) (AnalogArray s) = replicate (AnalogArrayPosition s) c)"

section \<open>Elementary facts\<close>

lemmas config_defs =
  SUDDEN_CHANGE_THRESHOLD_def CHANGE_RATE_THRESHOLD_def wigglePeriod_def
  wigglePeriodVariation_def SizeOfAnalogArray_def HISTORY_SIZE_def

lemma moves_append: "moves (a @ b) = moves a @ moves b"
  by (induction a rule: moves.induct) auto

lemma moves_println: "moves (println serial m) = []"
  by (simp add: println_def)


section \<open>32-bit arithmetic of the classifier\<close>

lemma sint32_of_int:
  "- 2147483648 \<le> k \<Longrightarrow> k < 2147483648 \<Longrightarrow> sint (word_of_int k :: 32 word) = k"
  by (simp add: sint_sbintrunc' signed_take_bit_int_eq_self)

lemma ucast_16_32: "(ucast (x :: 16 word) :: 32 word) = word_of_int (uint x)"
  by simp

lemma sumLoop_word:
  "sumLoop counter acc arr
     = acc + word_of_int (\<Sum>i = counter..<SizeOfAnalogArray. uint (arr ! i))"
proof (induction counter acc arr rule: sumLoop.induct)
  case (1 counter acc arr)
  show ?case
  proof (cases "counter < SizeOfAnalogArray")
    case True
    have split: "(\<Sum>i = counter..<SizeOfAnalogArray. uint (arr ! i))
        = uint (arr ! counter) + (\<Sum>i = counter + 1..<SizeOfAnalogArray. uint (arr ! i))"
      using True by (simp only: sum.atLeast_Suc_lessThan Suc_eq_plus1)
    have "sumLoop counter acc arr = sumLoop (counter + 1) (acc + ucast (arr ! counter)) arr"
      using True by (subst sumLoop.simps) (simp only: if_True)
    also have "\<dots> = acc + ucast (arr ! counter)
        + word_of_int (\<Sum>i = counter + 1..<SizeOfAnalogArray. uint (arr ! i))"
      by (rule "1.IH"[OF True])
    also have "\<dots> = acc + word_of_int (\<Sum>i = counter..<SizeOfAnalogArray. uint (arr ! i))"
      by (simp only: split of_int_add ucast_16_32 add.assoc)
    finally show ?thesis .
  next
    case False
    then have "sumLoop counter acc arr = acc"
      by (subst sumLoop.simps) (simp only: if_False)
    moreover have "(\<Sum>i = counter..<SizeOfAnalogArray. uint (arr ! i)) = 0"
      using False by simp
    ultimately show ?thesis by simp
  qed
qed

lemma windowSum_bounds: "0 \<le> windowSum arr \<and> windowSum arr \<le> 6553500"
proof -
  have "uint (arr ! i) \<le> 65535" for i
    using uint_lt2p [of "arr ! i"] by simp
  then have "windowSum arr \<le> (\<Sum>i = 0..<SizeOfAnalogArray. 65535)"
    unfolding windowSum_def by (intro sum_mono)
  moreover have "0 \<le> windowSum arr"
    unfolding windowSum_def by (intro sum_nonneg) simp
  ultimately show ?thesis by (simp add: SizeOfAnalogArray_def)
qed

lemma sumLoop_windowSum: "sumLoop 0 0 arr = word_of_int (windowSum arr)"
  by (simp only: sumLoop_word windowSum_def add_0)

lemma sumLoop_sint: "sint (sumLoop 0 0 arr) = windowSum arr"
  using windowSum_bounds [of arr]
  by (simp only: sumLoop_windowSum) (rule sint32_of_int, linarith+)

lemma div_le_self_int: "0 \<le> (a::int) \<Longrightarrow> 0 < b \<Longrightarrow> a div b \<le> a"
  using zdiv_mono2 [of a 1 b] by simp

lemma sdiv_abs_le: "0 < (b::int) \<Longrightarrow> \<bar>a sdiv b\<bar> \<le> \<bar>a\<bar>"
proof -
  assume b: "0 < b"
  have "0 \<le> \<bar>a\<bar> div b" using b by (simp add: pos_imp_zdiv_nonneg_iff)
  then have "\<bar>a sdiv b\<bar> = \<bar>a\<bar> div b"
    using b by (simp add: signed_divide_int_def sgn_if abs_mult)
  then show ?thesis using div_le_self_int [of "\<bar>a\<bar>" b] b by simp
qed

lemma ldiv_sint:
  assumes "0 < sint b" "- 2147483648 < sint a"
  shows "sint (ldiv a b) = sint a sdiv sint b"
proof -
  have "\<bar>sint a sdiv sint b\<bar> \<le> \<bar>sint a\<bar>" using assms(1) by (rule sdiv_abs_le)
  moreover have "sint a < 2147483648" using sint_lt [of a] by simp
  ultimately have "- 2147483648 \<le> sint a sdiv sint b" "sint a sdiv sint b < 2147483648"
    using assms(2) by linarith+
  then show ?thesis unfolding ldiv_def by (rule sint32_of_int)
qed

lemma abs_long_sint: "- 2147483648 < sint x \<Longrightarrow> sint (abs_long x) = \<bar>sint x\<bar>"
proof -
  assume x: "- 2147483648 < sint x"
  have lt: "sint x < 2147483648" using sint_lt [of x] by simp
  have neg: "sint (- x) = - sint x"
    using x lt by (simp add: sint_word_minus signed_take_bit_int_eq_self)
  show ?thesis
    by (simp add: abs_long_def word_sless_alt neg)
qed

lemma scaled_bounds:
  "0 \<le> (a::int) \<Longrightarrow> a \<le> 6553500 \<Longrightarrow> 0 \<le> b \<Longrightarrow> b \<le> 6553500 \<Longrightarrow>
   - 2147483648 < (a - b) * 100 \<and> (a - b) * 100 < 2147483648"
  by (simp add: algebra_simps)

lemma scaled_diff_sint:
  fixes x y :: slong
  assumes "0 \<le> sint x" "sint x \<le> 6553500" "0 \<le> sint y" "sint y \<le> 6553500"
  shows "sint ((x - y) * 100) = (sint x - sint y) * 100"
proof -
  have "(x - y) * 100 = word_of_int ((sint x - sint y) * 100)"
    by simp
  moreover have "sint (word_of_int ((sint x - sint y) * 100) :: 32 word) = (sint x - sint y) * 100"
    using scaled_bounds [OF assms] by (intro sint32_of_int) simp_all
  ultimately show ?thesis by simp
qed

lemma times_history_sint:
  fixes y :: slong
  assumes "0 \<le> sint y" "sint y \<le> 6553500"
  shows "sint (y * of_nat HISTORY_SIZE) = sint y * 5"
proof -
  have "y * of_nat HISTORY_SIZE = word_of_int (sint y * 5)"
    by (simp add: HISTORY_SIZE_def)
  moreover have "sint (word_of_int (sint y * 5) :: 32 word) = sint y * 5"
    using assms by (intro sint32_of_int) simp_all
  ultimately show ?thesis by simp
qed

lemma percentChange_sint:
  fixes x p :: slong
  assumes "0 \<le> sint x" "sint x \<le> 6553500" "0 < sint p" "sint p \<le> 6553500"
  shows "sint (ldiv ((x - p) * 100) p) = spec_percentChange (sint x) (sint p)"
    and "- 2147483648 < sint (ldiv ((x - p) * 100) p)"
proof -
  have p0: "0 \<le> sint p" using assms(3) by simp
  have d: "sint ((x - p) * 100) = (sint x - sint p) * 100"
    using assms(1,2) p0 assms(4) by (rule scaled_diff_sint)
  have lo: "- 2147483648 < sint ((x - p) * 100)"
    using scaled_bounds [OF assms(1,2) p0 assms(4)] d by simp
  show eq: "sint (ldiv ((x - p) * 100) p) = spec_percentChange (sint x) (sint p)"
    by (simp only: ldiv_sint [OF assms(3) lo] d spec_percentChange_def)
  have "\<bar>((sint x - sint p) * 100) sdiv sint p\<bar> \<le> \<bar>(sint x - sint p) * 100\<bar>"
    using assms(3) by (rule sdiv_abs_le)
  then show "- 2147483648 < sint (ldiv ((x - p) * 100) p)"
    using scaled_bounds [OF assms(1,2) p0 assms(4)] unfolding eq spec_percentChange_def
    by linarith
qed

lemma rateOfChange_sint:
  fixes x y :: slong
  assumes "0 \<le> sint x" "sint x \<le> 6553500" "0 < sint y" "sint y \<le> 6553500"
  shows "sint (ldiv ((x - y) * 100) (y * of_nat HISTORY_SIZE))
           = spec_rateOfChange (sint x) (sint y)"
    and "- 2147483648 < sint (ldiv ((x - y) * 100) (y * of_nat HISTORY_SIZE))"
proof -
  have y0: "0 \<le> sint y" using assms(3) by simp
  have d: "sint ((x - y) * 100) = (sint x - sint y) * 100"
    using assms(1,2) y0 assms(4) by (rule scaled_diff_sint)
  have h: "sint (y * of_nat HISTORY_SIZE) = sint y * 5"
    using y0 assms(4) by (rule times_history_sint)
  have lo: "- 2147483648 < sint ((x - y) * 100)"
    using scaled_bounds [OF assms(1,2) y0 assms(4)] d by simp
  have pos: "0 < sint (y * of_nat HISTORY_SIZE)" using h assms(3) by simp
  show eq: "sint (ldiv ((x - y) * 100) (y * of_nat HISTORY_SIZE))
           = spec_rateOfChange (sint x) (sint y)"
    by (simp only: ldiv_sint [OF pos lo] d h spec_rateOfChange_def)
  have "\<bar>((sint x - sint y) * 100) sdiv (sint y * 5)\<bar> \<le> \<bar>(sint x - sint y) * 100\<bar>"
    using assms(3) by (intro sdiv_abs_le) simp
  then show "- 2147483648 < sint (ldiv ((x - y) * 100) (y * of_nat HISTORY_SIZE))"
    using scaled_bounds [OF assms(1,2) y0 assms(4)] unfolding eq spec_rateOfChange_def
    by linarith
qed

section \<open>One classification cycle\<close>

lemma times5_nonzero:
  fixes y :: slong
  assumes "0 < sint y" "sint y \<le> 6553500"
  shows "y * of_nat HISTORY_SIZE \<noteq> 0"
proof -
  have "sint (y * of_nat HISTORY_SIZE) = sint y * 5"
    using assms by (intro times_history_sint) simp_all
  then have "sint (y * of_nat HISTORY_SIZE) \<noteq> 0" using assms(1) by simp
  then show "y * of_nat HISTORY_SIZE \<noteq> 0" by auto
qed

lemma wf_oldestSum: "wf s \<Longrightarrow> sum_ok (oldestSum s)"
  by (simp add: wf_def oldestSum_def list_all_length)

lemma classificationCycle_result:
  assumes wf: "wf s" and p: "0 < sint (priorSum s)" and o: "0 < sint (oldestSum s)"
  shows "\<exists>line tail. classificationCycle serial now s =
           Inr (cycle_state s
                  \<lparr> lightStatus :=
                      (if primed_after s \<and> 15 < cycle_percentChange s \<and> 5 < \<bar>cycle_rateOfChange s\<bar>
                       then True
                       else if primed_after s \<and> cycle_percentChange s < - 15
                               \<and> 5 < \<bar>cycle_rateOfChange s\<bar>
                       then False
                       else lightStatus s) \<rparr>,
                println serial line @ tail)
         \<and> tail =
             (if primed_after s \<and> 15 < cycle_percentChange s \<and> 5 < \<bar>cycle_rateOfChange s\<bar>
              then println serial (Text ''Lights Detected ON (sudden change)'')
              else if primed_after s \<and> cycle_percentChange s < - 15
                      \<and> 5 < \<bar>cycle_rateOfChange s\<bar>
              then println serial (Text ''Lights Detected OFF (sudden change)'')
              else tail)"
proof -
  define x where "x = sumLoop 0 0 (AnalogArray s)"
  define pw where "pw = ldiv ((x - priorSum s) * 100) (priorSum s)"
  define rw where "rw = ldiv ((x - oldestSum s) * 100) (oldestSum s * of_nat HISTORY_SIZE)"
  have x: "0 \<le> sint x" "sint x \<le> 6553500" "sint x = windowSum (AnalogArray s)"
    using windowSum_bounds [of "AnalogArray s"] by (simp_all add: x_def sumLoop_sint)
  have pr: "sint (priorSum s) \<le> 6553500" using wf by (simp add: wf_def sum_ok_def)
  have hp: "historyPosition s < HISTORY_SIZE"
    using wf by (simp add: wf_def)
  have ol: "sint (oldestSum s) \<le> 6553500" using wf_oldestSum [OF wf] by (simp add: sum_ok_def)
  have pw: "sint pw = cycle_percentChange s" "- 2147483648 < sint pw"
    using percentChange_sint [OF x(1,2) p pr] by (simp_all add: pw_def cycle_percentChange_def x(3))
  have rw: "sint rw = cycle_rateOfChange s" "- 2147483648 < sint rw"
    using rateOfChange_sint [OF x(1,2) o ol] by (simp_all add: rw_def cycle_rateOfChange_def x(3))
  have c1: "(SUDDEN_CHANGE_THRESHOLD <s pw) = (15 < cycle_percentChange s)"
    by (simp add: word_sless_alt SUDDEN_CHANGE_THRESHOLD_def pw)
  have c2: "(CHANGE_RATE_THRESHOLD <s abs_long rw) = (5 < \<bar>cycle_rateOfChange s\<bar>)"
    by (simp add: word_sless_alt CHANGE_RATE_THRESHOLD_def abs_long_sint [OF rw(2)] rw(1))
  have c3: "(pw <s - SUDDEN_CHANGE_THRESHOLD) = (cycle_percentChange s < - 15)"
    by (simp add: word_sless_alt SUDDEN_CHANGE_THRESHOLD_def pw)
  have nz: "priorSum s \<noteq> 0" "oldestSum s * of_nat HISTORY_SIZE \<noteq> 0"
    using times5_nonzero [OF o ol] p by auto
  have filled: "(if (historyPosition s + 1) mod HISTORY_SIZE = 0 then True else historyFilled s)
      = primed_after s"
    by (auto simp: primed_after_def)
  show ?thesis
    unfolding classificationCycle_def Let_def
    unfolding oldestSum_def [symmetric] x_def [symmetric]
    unfolding pw_def [symmetric] rw_def [symmetric]
    unfolding c1 c2 c3 filled cycle_state_def x_def [symmetric]
    using nz hp by auto
qed

lemma classificationCycle_zero:
  assumes "wf s" "priorSum s = 0 \<or> oldestSum s = 0"
  shows "classificationCycle serial now s = Inl DivisionByZero"
  using assms by (auto simp: classificationCycle_def Let_def oldestSum_def wf_def)

lemma sum_ok_pos: "sum_ok x \<Longrightarrow> x \<noteq> 0 \<Longrightarrow> 0 < sint x"
  by (auto simp: sum_ok_def order_less_le signed_eq_0_iff)

lemma wf_cycle_state: "wf s \<Longrightarrow> wf (cycle_state s \<lparr> lightStatus := b \<rparr>)"
proof -
  assume wf: "wf s"
  have x: "sum_ok (sumLoop 0 0 (AnalogArray s))"
    using windowSum_bounds [of "AnalogArray s"] by (simp add: sum_ok_def sumLoop_sint)
  have "list_all sum_ok ((sumHistory s)[historyPosition s := sumLoop 0 0 (AnalogArray s)])"
    using wf x by (simp add: wf_def list_all_length nth_list_update)
  then show ?thesis using wf x by (simp add: wf_def cycle_state_def HISTORY_SIZE_def)
qed

lemma wf_classificationCycle:
  assumes "wf s" "classificationCycle serial now s = Inr (s', out)"
  shows "wf s'"
proof -
  have nz: "priorSum s \<noteq> 0" "oldestSum s \<noteq> 0"
    using assms classificationCycle_zero [of s serial now] by auto
  have "0 < sint (priorSum s)" "0 < sint (oldestSum s)"
    using nz assms(1) wf_oldestSum [OF assms(1)] by (auto simp: wf_def intro: sum_ok_pos)
  from classificationCycle_result [OF assms(1) this, of serial now] assms(2)
  show ?thesis using wf_cycle_state [OF assms(1)] by auto
qed

lemma wf_readAnalogIntoArray:
  assumes "wf s" "readAnalogIntoArray serial now reading s = Inr (s', out)"
  shows "wf s'"
proof -
  let ?s1 = "s \<lparr> AnalogArray := (AnalogArray s)[AnalogArrayPosition s := reading],
                 AnalogArrayPosition := (AnalogArrayPosition s + 1) mod SizeOfAnalogArray \<rparr>"
  have wf1: "wf ?s1" using assms(1) by (simp add: wf_def SizeOfAnalogArray_def)
  show ?thesis
  proof (cases "AnalogArrayPosition ?s1 = 0")
    case True
    then have "classificationCycle serial now ?s1 = Inr (s', out)"
      using assms by (simp add: readAnalogIntoArray_def Let_def wf_def)
    then show ?thesis using wf1 by (rule wf_classificationCycle [rotated])
  next
    case False
    then have "s' = ?s1"
      using assms by (simp add: readAnalogIntoArray_def Let_def wf_def)
    then show ?thesis using wf1 by simp
  qed
qed

lemma wf_sendWiggle: "wf s \<Longrightarrow> wf (fst (sendWiggle serial rT rX rY s))"
  by (simp add: sendWiggle_def Let_def wf_def)

lemma windowSum_replicate: "windowSum (replicate SizeOfAnalogArray v) = 100 * uint v"
  by (simp add: windowSum_def SizeOfAnalogArray_def)

lemma windowSum_sum_list:
  "length arr = SizeOfAnalogArray \<Longrightarrow> windowSum arr = sum_list (map uint arr)"
proof -
  assume len: "length arr = SizeOfAnalogArray"
  have "sum_list (map uint arr) = (\<Sum>i = 0..<length (map uint arr). map uint arr ! i)"
    by (rule sum_list_sum_nth)
  also have "\<dots> = (\<Sum>i = 0..<SizeOfAnalogArray. uint (arr ! i))"
    using len by (intro sum.cong) simp_all
  finally show ?thesis by (simp add: windowSum_def)
qed

text \<open>
  Claim C1. In a classification cycle that runs in a well-formed state with the history
  primed at the test and with \<open>priorSum\<close> and the evicted history sum positive, the flag
  becomes true exactly when \<open>percentChange > 15\<close> and \<open>\<bar>rateOfChange\<bar> > 5\<close>, false exactly
  when \<open>percentChange < -15\<close> and \<open>\<bar>rateOfChange\<bar> > 5\<close>, and keeps its value otherwise,
  where the two percentages are the integer formulas of the specification. With
  \<open>priorSum = 45200\<close> and a window sum of 67800 the percentage is exactly 50, and if the
  rate exceeds 5 the flag becomes true and the cycle ends by handing the line
  \<open>Lights Detected ON (sudden change)\<close> to \<open>println\<close>.
\<close>

theorem classification_rule:
  assumes "wf s" and "primed_after s"
    and "0 < sint (priorSum s)" and "0 < sint (oldestSum s)"
  shows "\<exists>s' out. classificationCycle serial now s = Inr (s', out) \<and>
           lightStatus s' =
             (if 15 < cycle_percentChange s \<and> 5 < \<bar>cycle_rateOfChange s\<bar> then True
              else if cycle_percentChange s < - 15 \<and> 5 < \<bar>cycle_rateOfChange s\<bar> then False
              else lightStatus s) \<and>
           (sint (priorSum s) = 45200 \<and> windowSum (AnalogArray s) = 67800 \<longrightarrow>
              cycle_percentChange s = 50 \<and>
              (5 < cycle_rateOfChange s \<longrightarrow>
                 lightStatus s' \<and>
                 (\<exists>line. out = println serial line
                           @ println serial (Text ''Lights Detected ON (sudden change)''))))"
proof -
  obtain line tail where r: "classificationCycle serial now s =
           Inr (cycle_state s
                  \<lparr> lightStatus :=
                      (if primed_after s \<and> 15 < cycle_percentChange s \<and> 5 < \<bar>cycle_rateOfChange s\<bar>
                       then True
                       else if primed_after s \<and> cycle_percentChange s < - 15
                               \<and> 5 < \<bar>cycle_rateOfChange s\<bar>
                       then False
                       else lightStatus s) \<rparr>,
                println serial line @ tail)"
    and t: "tail =
             (if primed_after s \<and> 15 < cycle_percentChange s \<and> 5 < \<bar>cycle_rateOfChange s\<bar>
              then println serial (Text ''Lights Detected ON (sudden change)'')
              else if primed_after s \<and> cycle_percentChange s < - 15
                      \<and> 5 < \<bar>cycle_rateOfChange s\<bar>
              then println serial (Text ''Lights Detected OFF (sudden change)'')
              else tail)"
    using classificationCycle_result [OF assms(1,3,4), of serial now] by blast
  have fifty: "cycle_percentChange s = 50"
    if "sint (priorSum s) = 45200" "windowSum (AnalogArray s) = 67800"
    using that by (simp add: cycle_percentChange_def spec_percentChange_def signed_divide_int_def)
  let ?on = "15 < cycle_percentChange s \<and> 5 < \<bar>cycle_rateOfChange s\<bar>"
  let ?off = "cycle_percentChange s < - 15 \<and> 5 < \<bar>cycle_rateOfChange s\<bar>"
  let ?s' = "cycle_state s \<lparr> lightStatus :=
               (if ?on then True else if ?off then False else lightStatus s) \<rparr>"
  have run: "classificationCycle serial now s = Inr (?s', println serial line @ tail)"
    using r assms(2) by simp
  have on: "tail = println serial (Text ''Lights Detected ON (sudden change)'')" if "?on"
    using t that assms(2) by simp
  have scen: "cycle_percentChange s = 50 \<and>
      (5 < cycle_rateOfChange s \<longrightarrow>
         lightStatus ?s' \<and>
         (\<exists>l. println serial line @ tail = println serial l
                   @ println serial (Text ''Lights Detected ON (sudden change)'')))"
    if "sint (priorSum s) = 45200 \<and> windowSum (AnalogArray s) = 67800"
  proof -
    have f: "cycle_percentChange s = 50" using that fifty by simp
    have "lightStatus ?s' \<and> tail = println serial (Text ''Lights Detected ON (sudden change)'')"
      if "5 < cycle_rateOfChange s"
      using that f on by simp
    then show ?thesis using f by blast
  qed
  have "lightStatus ?s' = (if ?on then True else if ?off then False else lightStatus s)"
    by simp
  with run scen show ?thesis by blast
qed

theorem classification_rule_witness:
  "wf lit_example \<and> primed_after lit_example \<and> 0 < sint (priorSum lit_example)
   \<and> 0 < sint (oldestSum lit_example)
   \<and> cycle_percentChange lit_example = 50 \<and> cycle_rateOfChange lit_example = 10
   \<and> (\<exists>s' line. classificationCycle True 3000 lit_example
          = Inr (s', [SerialPrintln line, SerialPrintln (Text ''Lights Detected ON (sudden change)'')])
        \<and> lightStatus s')"
proof -
  have ws: "windowSum (AnalogArray lit_example) = 67800"
    using windowSum_replicate [of 678] by (simp add: lit_example_def SizeOfAnalogArray_def)
  have h: "wf lit_example" "primed_after lit_example" "0 < sint (priorSum lit_example)"
    "0 < sint (oldestSum lit_example)"
    by (simp_all add: wf_def lit_example_def primed_after_def oldestSum_def sum_ok_def
        SizeOfAnalogArray_def HISTORY_SIZE_def list_all_length)
  have r: "cycle_rateOfChange lit_example = 10"
    unfolding cycle_rateOfChange_def ws
    by (simp add: spec_rateOfChange_def signed_divide_int_def oldestSum_def lit_example_def)
  have p: "sint (priorSum lit_example) = 45200" by (simp add: lit_example_def)
  show ?thesis
    using classification_rule [OF h, of True 3000] h ws r p
    by (auto simp: println_def)
qed

section \<open>The actuation scheduler\<close>

text \<open>
  Claim C7. A call of \<open>sendWiggle\<close> whose trigger fires while \<open>lightStatus\<close> is true requests
  the movement \<open>(dx, dy)\<close> and then, in the same call, \<open>(-dx, -dy)\<close>, where \<open>dx\<close> is 1 or -1
  according to the first draw of \<^verbatim>\<open>random(2)\<close> alone and \<open>dy\<close> according to the second alone;
  the net displacement is zero. A trigger that fires while the flag is false, and a call
  whose trigger does not fire, request no movement. The call never writes the flag.
\<close>

theorem wiggle_round_trip:
  "moves (snd (sendWiggle serial rT rX rY s)) =
     (if fires s \<and> lightStatus s
      then [((if rX = 0 then 1 else - 1), (if rY = 0 then 1 else - 1)),
            (- (if rX = 0 then 1 else - 1), - (if rY = 0 then 1 else - 1))]
      else [])
   \<and> displacement (moves (snd (sendWiggle serial rT rX rY s))) = (0, 0)
   \<and> (if rX = 0 then 1 else - 1 :: int) \<in> {1, - 1}
   \<and> (if rY = 0 then 1 else - 1 :: int) \<in> {1, - 1}
   \<and> lightStatus (fst (sendWiggle serial rT rX rY s)) = lightStatus s
   \<and> (\<not> fires s \<longrightarrow> snd (sendWiggle serial rT rX rY s) = [])"
  by (simp add: sendWiggle_def fires_def Let_def moves_append moves_println)

theorem wiggle_round_trip_witness:
  "fires (lit_example \<lparr> lightStatus := True, wiggleSec := 9 \<rparr>)
   \<and> moves (snd (sendWiggle True 2 0 1 (lit_example \<lparr> lightStatus := True, wiggleSec := 9 \<rparr>)))
       = [(1, - 1), (- 1, 1)]
   \<and> moves (snd (sendWiggle True 2 0 1 (lit_example \<lparr> wiggleSec := 9 \<rparr>))) = []
   \<and> moves (snd (sendWiggle True 2 0 1 (lit_example \<lparr> lightStatus := True, wiggleSec := 3 \<rparr>))) = []"
  using wiggle_round_trip [of True 2 0 1 "lit_example \<lparr> lightStatus := True, wiggleSec := 9 \<rparr>"]
    wiggle_round_trip [of True 2 0 1 "lit_example \<lparr> wiggleSec := 9 \<rparr>"]
    wiggle_round_trip [of True 2 0 1 "lit_example \<lparr> lightStatus := True, wiggleSec := 3 \<rparr>"]
  by (simp add: fires_def lit_example_def)

text \<open>
  Claim C8. \<^verbatim>\<open>random(min, max)\<close> of the Arduino core returns a value from \<open>min\<close> to
  \<open>max - 1\<close>. For every such result of
  \<^verbatim>\<open>random(-wigglePeriodVariation, wigglePeriodVariation + 1)\<close>, the interval that a firing
  call stores in \<open>nextWiggleTime\<close> is one of 7, ..., 13; it lies between the minimum 3 and
  \<open>wigglePeriod + wigglePeriodVariation\<close>.
\<close>

theorem next_interval_bounds:
  assumes "- wigglePeriodVariation \<le> rT" and "rT < wigglePeriodVariation + 1" and "fires s"
  shows "nextWiggleTime (fst (sendWiggle serial rT rX rY s)) \<in> {7, 8, 9, 10, 11, 12, 13}
       \<and> 3 \<le> nextWiggleTime (fst (sendWiggle serial rT rX rY s))
       \<and> nextWiggleTime (fst (sendWiggle serial rT rX rY s)) \<le> wigglePeriod + wigglePeriodVariation
       \<and> nextWiggleTime (fst (sendWiggle serial rT rX rY s)) = wigglePeriod + rT"
proof -
  have "rT \<in> {- 3, - 2, - 1, 0, 1, 2, 3}"
    using assms(1,2) by (simp add: wigglePeriodVariation_def) presburger
  then show ?thesis
    using assms(3)
    by (auto simp: sendWiggle_def fires_def Let_def wigglePeriod_def wigglePeriodVariation_def)
qed

theorem next_interval_bounds_witness:
  "- wigglePeriodVariation \<le> - 3 \<and> - 3 < wigglePeriodVariation + 1
   \<and> fires (lit_example \<lparr> wiggleSec := 9 \<rparr>)
   \<and> nextWiggleTime (fst (sendWiggle False (- 3) 1 1 (lit_example \<lparr> wiggleSec := 9 \<rparr>))) = 7"
proof -
  have h: "- wigglePeriodVariation \<le> - 3" "- 3 < wigglePeriodVariation + 1"
    "fires (lit_example \<lparr> wiggleSec := 9 \<rparr>)"
    by (simp_all add: wigglePeriodVariation_def fires_def lit_example_def)
  show ?thesis
    using next_interval_bounds [OF h, of False 1 1] h by (simp add: wigglePeriod_def)
qed

lemma sendWiggle_nextWiggleTime_idle:
  "\<not> fires s \<Longrightarrow> nextWiggleTime (fst (sendWiggle serial rT rX rY s)) = nextWiggleTime s"
  by (simp add: sendWiggle_def fires_def Let_def)

lemma sendWiggle_timer_inv:
  assumes "- wigglePeriodVariation \<le> rT" and "rT < wigglePeriodVariation + 1"
    and "0 \<le> wiggleSec s" "wiggleSec s < nextWiggleTime s" "nextWiggleTime s \<le> 13"
  shows "0 \<le> wiggleSec (fst (sendWiggle serial rT rX rY s))
       \<and> wiggleSec (fst (sendWiggle serial rT rX rY s)) < nextWiggleTime (fst (sendWiggle serial rT rX rY s))
       \<and> nextWiggleTime (fst (sendWiggle serial rT rX rY s)) \<le> 13"
  using assms
  by (auto simp: sendWiggle_def Let_def wigglePeriod_def wigglePeriodVariation_def)

section \<open>Properties of setup\<close>

lemma prefill_length: "length (prefill rd k c arr) = length arr"
  by (induction rd k c arr rule: prefill.induct) (subst prefill.simps, simp)

lemma prefill_nth:
  "i < length arr \<Longrightarrow>
   prefill rd k c arr ! i =
     (if c \<le> i \<and> i < SizeOfAnalogArray \<and> even (i - c) then rd (k + (i - c) div 2) else arr ! i)"
proof (induction rd k c arr rule: prefill.induct)
  case (1 rd k counter arr)
  show ?case
  proof (cases "counter < SizeOfAnalogArray")
    case False
    then show ?thesis by (subst prefill.simps) auto
  next
    case True
    have len: "i < length (arr[counter := rd k])" using "1.prems" by simp
    note IH = "1.IH"[OF True len]
    have unfold: "prefill rd k counter arr
        = prefill rd (k + 1) (counter + 1 + 1) (arr[counter := rd k])"
      using True by (subst prefill.simps) simp
    consider "i < counter" | "i = counter" | "i = counter + 1" | "counter + 2 \<le> i"
      by linarith
    then show ?thesis
    proof cases
      case 1
      then show ?thesis using IH unfold by simp
    next
      case 2
      then show ?thesis using IH unfold True "1.prems" by simp
    next
      case 3
      then show ?thesis using IH unfold by simp
    next
      case 4
      then obtain j where j: "i = counter + 2 + j" using le_Suc_ex by blast
      show ?thesis using IH unfold by (simp add: j)
    qed
  qed
qed

lemma fillHistory_length: "length (fillHistory i v hist) = length hist"
  by (induction i v hist rule: fillHistory.induct) (subst fillHistory.simps, simp)

lemma fillHistory_nth:
  "j < length hist \<Longrightarrow>
   fillHistory i v hist ! j = (if i \<le> j \<and> j < HISTORY_SIZE then v else hist ! j)"
proof (induction i v hist rule: fillHistory.induct)
  case (1 i v hist)
  show ?case
  proof (cases "i < HISTORY_SIZE")
    case False
    then show ?thesis by (subst fillHistory.simps) auto
  next
    case True
    have len: "j < length (hist[i := v])" using "1.prems" by simp
    show ?thesis
      using "1.IH"[OF True len] True "1.prems"
      by (subst fillHistory.simps) (auto simp: nth_list_update)
  qed
qed

lemma setup_fields:
  "length (AnalogArray (setup_sketch rd)) = SizeOfAnalogArray"
  "AnalogArrayPosition (setup_sketch rd) = 0"
  "lightStatus (setup_sketch rd) = True"
  "historyPosition (setup_sketch rd) = 0"
  "historyFilled (setup_sketch rd) = False"
  "wiggleSec (setup_sketch rd) = 0"
  "nextWiggleTime (setup_sketch rd) = wigglePeriod"
  "priorSum (setup_sketch rd) = sumLoop 0 0 (AnalogArray (setup_sketch rd))"
  "sumHistory (setup_sketch rd) = replicate HISTORY_SIZE (priorSum (setup_sketch rd))"
proof -
  have "length (fillHistory 0 v (replicate HISTORY_SIZE 0)) = HISTORY_SIZE" for v
    by (simp add: fillHistory_length)
  moreover have "fillHistory 0 v (replicate HISTORY_SIZE 0) ! j = v" if "j < HISTORY_SIZE" for v j
    using that by (simp add: fillHistory_nth)
  ultimately have "fillHistory 0 v (replicate HISTORY_SIZE 0) = replicate HISTORY_SIZE v" for v
    by (intro nth_equalityI) simp_all
  then show "sumHistory (setup_sketch rd) = replicate HISTORY_SIZE (priorSum (setup_sketch rd))"
    by (simp add: setup_sketch_def Let_def power_on_def)
qed (simp_all add: setup_sketch_def Let_def power_on_def prefill_length)

lemma setup_slot:
  "i < SizeOfAnalogArray \<Longrightarrow>
   AnalogArray (setup_sketch rd) ! i = (if even i then rd (i div 2) else 0)"
  by (simp add: setup_sketch_def Let_def prefill_nth power_on_def)

lemma wf_setup: "wf (setup_sketch rd)"
proof -
  have "sum_ok (priorSum (setup_sketch rd))"
    using windowSum_bounds [of "AnalogArray (setup_sketch rd)"]
    by (simp add: setup_fields(8) sum_ok_def sumLoop_sint)
  then show ?thesis
    by (simp add: wf_def setup_fields list_all_length SizeOfAnalogArray_def HISTORY_SIZE_def)
qed

lemma setup_initial_sum:
  "sint (priorSum (setup_sketch rd)) = (\<Sum>k = 0..<50. uint (rd k))"
proof -
  have "windowSum (AnalogArray (setup_sketch rd))
      = (\<Sum>i = 0..<100. if even i then uint (rd (i div 2)) else 0)"
    unfolding windowSum_def SizeOfAnalogArray_def
    by (intro sum.cong) (simp_all add: setup_slot SizeOfAnalogArray_def)
  also have "\<dots> = (\<Sum>i \<in> {0..<100} \<inter> {i. even i}. uint (rd (i div 2)))"
    by (simp add: sum.If_cases)
  also have "\<dots> = (\<Sum>k = 0..<50. uint (rd k))"
    by (rule sum.reindex_bij_witness [where i = "\<lambda>k. 2 * k" and j = "\<lambda>i. i div 2"]) auto
  finally show ?thesis by (simp add: setup_fields(8) sumLoop_sint)
qed

text \<open>
  Claim C4 (what the code does instead). Whatever the sensor returns, \<^verbatim>\<open>setup\<close> leaves every
  odd slot of the sample window at the zero it had at power-on: the pre-fill loop writes
  the even slots only, 50 readings in all, and the initial sum that goes into
  \<open>priorSum\<close> and into the five history entries is the sum of those 50 readings.
\<close>

theorem setup_leaves_odd_slots_zero:
  "AnalogArray (setup_sketch rd) ! 1 = 0
   \<and> (\<forall>i < SizeOfAnalogArray. odd i \<longrightarrow> AnalogArray (setup_sketch rd) ! i = 0)
   \<and> sint (priorSum (setup_sketch rd)) = (\<Sum>k = 0..<50. uint (rd k))"
  by (simp add: setup_slot setup_initial_sum SizeOfAnalogArray_def)

theorem setup_leaves_odd_slots_zero_witness:
  "AnalogArray (setup_sketch (\<lambda>k. 512)) ! 99 = 0
   \<and> AnalogArray (setup_sketch (\<lambda>k. 512)) ! 0 = 512
   \<and> sint (priorSum (setup_sketch (\<lambda>k. 512))) = 25600"
  using setup_leaves_odd_slots_zero [of "\<lambda>k. 512"] setup_slot [of 0 "\<lambda>k. 512"]
  by (simp add: SizeOfAnalogArray_def)

section \<open>Runs\<close>

lemma run_append:
  "run (a @ b) s =
     (case run a s of
        Inl e \<Rightarrow> Inl e
      | Inr (s1, out1) \<Rightarrow>
          (case run b s1 of Inl e \<Rightarrow> Inl e | Inr (s2, out2) \<Rightarrow> Inr (s2, out1 @ out2)))"
  by (induction a arbitrary: s) (auto split: sum.splits)

lemma case_sum_id_append_Nil:
  "(case X of Inl e \<Rightarrow> Inl e | Inr (s1, out1) \<Rightarrow> Inr (s1, out1 @ [])) = X"
  "(case X of Inl e \<Rightarrow> Inl e | Inr (s1, out1) \<Rightarrow> Inr (s1, [] @ out1)) = X"
  by (auto split: sum.splits)

lemma run_partial_window:
  assumes "length (AnalogArray s) = SizeOfAnalogArray"
    and "AnalogArrayPosition s + length w = SizeOfAnalogArray" and "w \<noteq> []"
  shows "run (window w) s =
     (case last w of (serial, now, r) \<Rightarrow>
        classificationCycle serial now
          (s \<lparr> AnalogArray := take (AnalogArrayPosition s) (AnalogArray s) @ readings w,
               AnalogArrayPosition := 0 \<rparr>))"
  using assms
proof (induction w arbitrary: s)
  case Nil
  then show ?case by simp
next
  case (Cons x w)
  obtain serial now r where x: "x = (serial, now, r)" by (cases x)
  let ?p = "AnalogArrayPosition s"
  have p: "?p < length (AnalogArray s)" using Cons.prems by simp
  show ?case
  proof (cases "w = []")
    case True
    then have p99: "Suc ?p = SizeOfAnalogArray" using Cons.prems by simp
    have upd: "(AnalogArray s)[?p := r] = take ?p (AnalogArray s) @ [r]"
      using p p99 Cons.prems(1) by (simp add: upd_conv_take_nth_drop)
    show ?thesis
      using True p99 Cons.prems(1)
      by (auto simp: window_def readings_def x readAnalogIntoArray_def Let_def upd
          split: sum.splits)
  next
    case False
    let ?s1 = "s \<lparr> AnalogArray := (AnalogArray s)[?p := r], AnalogArrayPosition := ?p + 1 \<rparr>"
    have small: "?p + 1 < SizeOfAnalogArray"
      using False Cons.prems by (cases w) simp_all
    then have step: "readAnalogIntoArray serial now r s = Inr (?s1, [])"
      by (simp add: readAnalogIntoArray_def Let_def)
    have tk: "take (?p + 1) ((AnalogArray s)[?p := r]) = take ?p (AnalogArray s) @ [r]"
      using p by (simp add: take_Suc_conv_app_nth)
    have "run (window w) ?s1 =
      (case last w of (serial, now, r') \<Rightarrow>
        classificationCycle serial now
          (?s1 \<lparr> AnalogArray := take (AnalogArrayPosition ?s1) (AnalogArray ?s1) @ readings w,
               AnalogArrayPosition := 0 \<rparr>))"
      using Cons.prems False by (intro Cons.IH) simp_all
    then show ?thesis
      using False step tk
      by (simp add: window_def readings_def x case_sum_id_append_Nil)
  qed
qed

lemma run_window:
  assumes "length (AnalogArray s) = SizeOfAnalogArray" and "AnalogArrayPosition s = 0"
    and "length w = SizeOfAnalogArray"
  shows "run (window w) s =
     (case last w of (serial, now, r) \<Rightarrow>
        classificationCycle serial now (s \<lparr> AnalogArray := readings w \<rparr>))"
proof -
  have ne: "w \<noteq> []" using assms(3) by (auto simp: SizeOfAnalogArray_def)
  have eq: "s \<lparr> AnalogArray := readings w, AnalogArrayPosition := 0 \<rparr>
      = s \<lparr> AnalogArray := readings w \<rparr>"
    using assms(2) by simp
  have "run (window w) s =
     (case last w of (serial, now, r) \<Rightarrow>
        classificationCycle serial now
          (s \<lparr> AnalogArray := take (AnalogArrayPosition s) (AnalogArray s) @ readings w,
               AnalogArrayPosition := 0 \<rparr>))"
    using assms ne by (intro run_partial_window) simp_all
  then show ?thesis
    by (simp only: assms(2) take_0 append_Nil eq)
qed

section \<open>Invariants of runs\<close>

lemma run_invariant:
  assumes step: "\<And>i s s' out. P s \<Longrightarrow> isr i s = Inr (s', out) \<Longrightarrow> P s'"
    and "P s" and "run ins s = Inr (s', out)"
  shows "P s'"
  using assms(2,3)
proof (induction ins arbitrary: s out)
  case Nil
  then show ?case by simp
next
  case (Cons i ins)
  from Cons.prems(2) obtain s1 out1 out2 where
    a: "isr i s = Inr (s1, out1)" and b: "run ins s1 = Inr (s', out2)"
    by (auto split: sum.splits prod.splits)
  have "P s1" using step [OF Cons.prems(1) a] .
  then show ?case using b by (rule Cons.IH)
qed

lemma wf_isr: "wf s \<Longrightarrow> isr i s = Inr (s', out) \<Longrightarrow> wf s'"
  using wf_readAnalogIntoArray wf_sendWiggle
  by (cases i) (auto, metis fst_conv)

lemma wf_run: "wf s \<Longrightarrow> run ins s = Inr (s', out) \<Longrightarrow> wf s'"
  using run_invariant [where P = wf] wf_isr by blast

lemma classificationCycle_unprimed:
  "classificationCycle serial now s = Inr (s', out) \<Longrightarrow>
   historyFilled s' = primed_after s \<and> (\<not> primed_after s \<longrightarrow> lightStatus s' = lightStatus s)"
  by (auto simp: classificationCycle_def Let_def primed_after_def split: if_splits)

lemma readAnalogIntoArray_unprimed:
  assumes "readAnalogIntoArray serial now reading s = Inr (s', out)"
  shows "historyFilled s' =
           (historyFilled s \<or> (AnalogArrayPosition s + 1 = SizeOfAnalogArray
                                \<and> historyPosition s + 1 = HISTORY_SIZE))"
    and "\<not> historyFilled s' \<Longrightarrow> lightStatus s' = lightStatus s"
proof -
  let ?s1 = "s \<lparr> AnalogArray := (AnalogArray s)[AnalogArrayPosition s := reading],
                 AnalogArrayPosition := (AnalogArrayPosition s + 1) mod SizeOfAnalogArray \<rparr>"
  have pos: "AnalogArrayPosition s < SizeOfAnalogArray"
    using assms by (auto simp: readAnalogIntoArray_def split: if_splits)
  have wrap: "(AnalogArrayPosition ?s1 = 0) = (AnalogArrayPosition s + 1 = SizeOfAnalogArray)"
    using pos by (auto simp: SizeOfAnalogArray_def mod_Suc)
  show "historyFilled s' =
           (historyFilled s \<or> (AnalogArrayPosition s + 1 = SizeOfAnalogArray
                                \<and> historyPosition s + 1 = HISTORY_SIZE))"
  proof (cases "AnalogArrayPosition ?s1 = 0")
    case True
    then have c: "classificationCycle serial now ?s1 = Inr (s', out)"
      using assms pos by (simp add: readAnalogIntoArray_def Let_def)
    then have hp: "historyPosition s < HISTORY_SIZE"
      by (auto simp: classificationCycle_def Let_def split: if_splits)
    have "((historyPosition s + 1) mod HISTORY_SIZE = 0) = (historyPosition s + 1 = HISTORY_SIZE)"
      using hp by (auto simp: HISTORY_SIZE_def mod_Suc)
    then show ?thesis
      using classificationCycle_unprimed [OF c] True wrap by (simp add: primed_after_def)
  next
    case False
    then have "s' = ?s1" using assms pos by (simp add: readAnalogIntoArray_def Let_def)
    then show ?thesis using False wrap by simp
  qed
  show "lightStatus s' = lightStatus s" if "\<not> historyFilled s'"
  proof (cases "AnalogArrayPosition ?s1 = 0")
    case True
    then have c: "classificationCycle serial now ?s1 = Inr (s', out)"
      using assms pos by (simp add: readAnalogIntoArray_def Let_def)
    show ?thesis using classificationCycle_unprimed [OF c] that by simp
  next
    case False
    then have "s' = ?s1" using assms pos by (simp add: readAnalogIntoArray_def Let_def)
    then show ?thesis by simp
  qed
qed

lemma isr_unprimed:
  "isr i s = Inr (s', out) \<Longrightarrow> \<not> historyFilled s' \<Longrightarrow>
   \<not> historyFilled s \<and> lightStatus s' = lightStatus s"
proof (cases i)
  case (Timer1 serial now reading)
  assume "isr i s = Inr (s', out)" "\<not> historyFilled s'"
  then show ?thesis
    using readAnalogIntoArray_unprimed [of serial now reading s s' out] Timer1 by auto
next
  case (Timer3 serial rT rX rY)
  assume "isr i s = Inr (s', out)" "\<not> historyFilled s'"
  then show ?thesis using Timer3 by (auto simp: sendWiggle_def Let_def split: if_splits)
qed

text \<open>
  Claim C3. A call of \<open>readAnalogIntoArray\<close> that leaves \<open>historyFilled\<close> false leaves
  \<open>lightStatus\<close> as it was; \<open>historyFilled\<close> becomes true in the call that completes a window
  while \<open>historyPosition\<close> is on the last history slot, and stays true. So in every run from
  \<open>setup_sketch\<close>, as long as the history has not completed its first wrap, the flag still
  has its initial value.
\<close>

theorem no_flag_change_before_priming:
  "(readAnalogIntoArray serial now reading s = Inr (s', out) \<and> \<not> historyFilled s'
      \<longrightarrow> lightStatus s' = lightStatus s)
   \<and> (readAnalogIntoArray serial now reading s = Inr (s', out)
      \<longrightarrow> historyFilled s' =
            (historyFilled s \<or> (AnalogArrayPosition s + 1 = SizeOfAnalogArray
                                 \<and> historyPosition s + 1 = HISTORY_SIZE)))
   \<and> (run ins (setup_sketch rd) = Inr (s', out) \<and> \<not> historyFilled s' \<longrightarrow> lightStatus s')"
proof -
  have "\<not> historyFilled t \<longrightarrow> lightStatus t"
    if "run ins (setup_sketch rd) = Inr (t, out)" for t
  proof (rule run_invariant [where P = "\<lambda>t. \<not> historyFilled t \<longrightarrow> lightStatus t", OF _ _ that])
    show "\<not> historyFilled (setup_sketch rd) \<longrightarrow> lightStatus (setup_sketch rd)"
      by (simp add: setup_fields)
  next
    fix i s s' out
    assume "\<not> historyFilled s \<longrightarrow> lightStatus s" "isr i s = Inr (s', out)"
    then show "\<not> historyFilled s' \<longrightarrow> lightStatus s'"
      using isr_unprimed [of i s s' out] by auto
  qed
  then show ?thesis
    using readAnalogIntoArray_unprimed [of serial now reading s s' out] by blast
qed

lemma last_replicate_100: "last (replicate SizeOfAnalogArray x) = x"
  by (simp add: SizeOfAnalogArray_def)

lemma readings_replicate: "readings (replicate n (serial, now, r)) = replicate n r"
  by (simp add: readings_def)

lemma wf_load: "wf s \<Longrightarrow> length arr = SizeOfAnalogArray \<Longrightarrow> wf (s \<lparr> AnalogArray := arr \<rparr>)"
  by (simp add: wf_def)

lemma run_constant_window:
  assumes "length (AnalogArray s) = SizeOfAnalogArray" and "AnalogArrayPosition s = 0"
  shows "run (window (replicate SizeOfAnalogArray (serial, now, r))) s
         = classificationCycle serial now (s \<lparr> AnalogArray := replicate SizeOfAnalogArray r \<rparr>)"
  using run_window [OF assms, of "replicate SizeOfAnalogArray (serial, now, r)"]
  by (simp add: last_replicate_100 readings_replicate)

theorem no_flag_change_before_priming_witness:
  "\<exists>s' out. run (window (replicate SizeOfAnalogArray (True, 1000, 100))) (setup_sketch (\<lambda>k. 1000))
              = Inr (s', out)
     \<and> \<not> historyFilled s' \<and> lightStatus s'
     \<and> cycle_percentChange (setup_sketch (\<lambda>k. 1000) \<lparr> AnalogArray := replicate SizeOfAnalogArray 100 \<rparr>) = - 80
     \<and> cycle_rateOfChange (setup_sketch (\<lambda>k. 1000) \<lparr> AnalogArray := replicate SizeOfAnalogArray 100 \<rparr>) = - 16"
proof -
  let ?s0 = "setup_sketch (\<lambda>k. 1000)"
  let ?s1 = "?s0 \<lparr> AnalogArray := replicate SizeOfAnalogArray 100 \<rparr>"
  have run: "run (window (replicate SizeOfAnalogArray (True, 1000, 100))) ?s0
      = classificationCycle True 1000 ?s1"
    by (rule run_constant_window) (simp_all add: setup_fields)
  have wf1: "wf ?s1" by (rule wf_load [OF wf_setup]) simp
  have p: "sint (priorSum ?s1) = 50000" by (simp add: setup_initial_sum)
  have o: "oldestSum ?s1 = priorSum ?s1"
    by (simp add: oldestSum_def setup_fields HISTORY_SIZE_def)
  have ws: "windowSum (AnalogArray ?s1) = 10000"
    using windowSum_replicate [of 100] by simp
  have pc: "cycle_percentChange ?s1 = - 80"
    unfolding cycle_percentChange_def ws p
    by (simp add: spec_percentChange_def signed_divide_int_def)
  have rc: "cycle_rateOfChange ?s1 = - 16"
    unfolding cycle_rateOfChange_def ws o p
    by (simp add: spec_rateOfChange_def signed_divide_int_def)
  have np: "\<not> primed_after ?s1"
    by (simp add: primed_after_def setup_fields HISTORY_SIZE_def)
  obtain s' out where r: "classificationCycle True 1000 ?s1 = Inr (s', out)"
    using classificationCycle_result [OF wf1, of True 1000] p o by auto
  have nf: "\<not> historyFilled s'" using classificationCycle_unprimed [OF r] np by simp
  have "lightStatus s'"
    using no_flag_change_before_priming [of True 1000 100 ?s0 s' out
        "window (replicate SizeOfAnalogArray (True, 1000, 100))" "\<lambda>k. 1000"] run r nf
    by simp
  then show ?thesis using run r nf pc rc by auto
qed

section \<open>A reference sum of zero\<close>


lemma sums_never_negative:
  assumes "run ins (setup_sketch rd) = Inr (s, out)"
  shows "0 \<le> sint (priorSum s) \<and> 0 \<le> sint (oldestSum s)"
  using wf_run [OF wf_setup assms] wf_oldestSum [of s]
  by (simp add: wf_def sum_ok_def)

text \<open>
  Claim C2 (what the code does instead). The cycle has no guard: it divides by \<open>priorSum\<close>
  and by five times the evicted history sum whatever their values
  (\<open>readAnalogIntoArray_zero_sum\<close>); a negative sum cannot arise (\<open>sums_never_negative\<close>).
  When the sensor reads 0 from power-on, \<^verbatim>\<open>setup\<close> leaves \<open>priorSum = 0\<close> and the Timer1
  interrupt that completes the first window divides by zero.
\<close>

theorem dark_start_divides_by_zero:
  "priorSum (setup_sketch (\<lambda>k. 0)) = 0
   \<and> run (window (replicate SizeOfAnalogArray (serial, now, 0))) (setup_sketch (\<lambda>k. 0))
       = Inl DivisionByZero"
proof -
  let ?s0 = "setup_sketch (\<lambda>k. 0)"
  have "sint (priorSum ?s0) = 0" by (simp add: setup_initial_sum)
  then have z: "priorSum ?s0 = 0" by (simp add: signed_eq_0_iff)
  have "run (window (replicate SizeOfAnalogArray (serial, now, 0))) ?s0
      = classificationCycle serial now (?s0 \<lparr> AnalogArray := replicate SizeOfAnalogArray 0 \<rparr>)"
    by (rule run_constant_window) (simp_all add: setup_fields)
  also have "\<dots> = Inl DivisionByZero"
    by (rule classificationCycle_zero) (simp_all add: wf_load [OF wf_setup] z)
  finally show ?thesis using z by simp
qed

section \<open>The flag from power-on\<close>

lemma classificationCycle_not_zero:
  assumes "wf s" and "classificationCycle serial now s = Inr (s', out)"
  shows "0 < sint (priorSum s)" and "0 < sint (oldestSum s)"
proof -
  have nz: "priorSum s \<noteq> 0" "oldestSum s \<noteq> 0"
    using assms classificationCycle_zero [of s serial now] by auto
  show "0 < sint (priorSum s)" "0 < sint (oldestSum s)"
    using nz assms(1) wf_oldestSum [OF assms(1)] by (auto simp: wf_def intro: sum_ok_pos)
qed

lemma classificationCycle_lightStatus:
  assumes "wf s" and "classificationCycle serial now s = Inr (s', out)"
  shows "lightStatus s' =
           (if primed_after s \<and> 15 < cycle_percentChange s \<and> 5 < \<bar>cycle_rateOfChange s\<bar>
            then True
            else if sudden_off s then False else lightStatus s)"
  using classificationCycle_result [OF assms(1) classificationCycle_not_zero [OF assms],
      of serial now] assms(2)
  by (auto simp: sudden_off_def)

lemma isr_keeps_flag:
  assumes "wf s" and "lightStatus s" and "isr i s = Inr (s', out)" and "\<not> turns_off i s"
  shows "lightStatus s'"
proof (cases i)
  case (Timer1 serial now reading)
  let ?s1 = "s \<lparr> AnalogArray := (AnalogArray s)[AnalogArrayPosition s := reading],
                 AnalogArrayPosition := (AnalogArrayPosition s + 1) mod SizeOfAnalogArray \<rparr>"
  have pos: "AnalogArrayPosition s < SizeOfAnalogArray" using assms(1) by (simp add: wf_def)
  have wf1: "wf ?s1" using assms(1) by (simp add: wf_def SizeOfAnalogArray_def)
  show ?thesis
  proof (cases "AnalogArrayPosition ?s1 = 0")
    case True
    then have wrap: "AnalogArrayPosition s + 1 = SizeOfAnalogArray"
      using pos by (auto simp: SizeOfAnalogArray_def mod_Suc split: if_splits)
    have c: "classificationCycle serial now ?s1 = Inr (s', out)"
      using assms(3) Timer1 True pos by (simp add: readAnalogIntoArray_def Let_def)
    have "\<not> sudden_off ?s1"
      using assms(4) Timer1 wrap
      by (simp add: sudden_off_def primed_after_def cycle_percentChange_def
          cycle_rateOfChange_def oldestSum_def)
    then show ?thesis
      using classificationCycle_lightStatus [OF wf1 c] assms(2) by simp
  next
    case False
    then have "s' = ?s1"
      using assms(3) Timer1 pos by (simp add: readAnalogIntoArray_def Let_def)
    then show ?thesis using assms(2) by simp
  qed
next
  case (Timer3 serial rT rX rY)
  then show ?thesis
    using assms(2,3) by (auto simp: sendWiggle_def Let_def split: if_splits)
qed

lemma run_keeps_flag:
  assumes "wf s" and "lightStatus s" and "run ins s = Inr (s', out)" and "never_off ins s"
  shows "lightStatus s'"
  using assms
proof (induction ins arbitrary: s out)
  case Nil
  then show ?case by simp
next
  case (Cons i ins)
  from Cons.prems(3) obtain s1 out1 out2 where
    a: "isr i s = Inr (s1, out1)" and b: "run ins s1 = Inr (s', out2)"
    by (auto split: sum.splits prod.splits)
  have n: "\<not> turns_off i s" "never_off ins s1" using Cons.prems(4) a by simp_all
  have "wf s1" using wf_isr [OF Cons.prems(1) a] .
  moreover have "lightStatus s1" using isr_keeps_flag [OF Cons.prems(1,2) a n(1)] .
  ultimately show ?case using b n(2) by (rule Cons.IH)
qed

section \<open>The history ring\<close>

lemma list5:
  "length xs = 5 \<Longrightarrow> \<exists>a b c d e. xs = [a, b, c, d, e]"
  by (simp add: eval_nat_numeral length_Suc_conv) blast

lemma below5: "p < (5::nat) \<Longrightarrow> p = 0 \<or> p = 1 \<or> p = 2 \<or> p = 3 \<or> p = 4"
  by arith

lemma rotate5:
  "rotate 0 [a, b, c, d, e] = [a, b, c, d, e]"
  "rotate 1 [a, b, c, d, e] = [b, c, d, e, a]"
  "rotate 2 [a, b, c, d, e] = [c, d, e, a, b]"
  "rotate 3 [a, b, c, d, e] = [d, e, a, b, c]"
  "rotate 4 [a, b, c, d, e] = [e, a, b, c, d]"
  by (simp_all add: eval_nat_numeral)


lemma wf_history5:
  assumes "wf s"
  obtains a b c d e where "sumHistory s = [a, b, c, d, e]"
proof -
  have "length (sumHistory s) = 5" using assms by (simp add: wf_def HISTORY_SIZE_def)
  from list5 [OF this] show ?thesis using that by blast
qed

lemma wf_position5:
  assumes "wf s"
  obtains "historyPosition s = 0" | "historyPosition s = 1" | "historyPosition s = 2"
    | "historyPosition s = 3" | "historyPosition s = 4"
proof -
  have "historyPosition s < 5" using assms by (simp add: wf_def HISTORY_SIZE_def)
  from below5 [OF this] show ?thesis using that by blast
qed

lemma recent_hd:
  assumes "wf s"
  shows "recent s = oldestSum s # tl (recent s)" and "length (recent s) = 5"
proof -
  obtain a b c d e where h: "sumHistory s = [a, b, c, d, e]"
    using assms by (rule wf_history5)
  show "recent s = oldestSum s # tl (recent s)"
    using assms
  proof (cases rule: wf_position5)
    case 1 then show ?thesis by (simp add: recent_def oldestSum_def h)
  next
    case 2 then show ?thesis by (simp add: recent_def oldestSum_def h)
  next
    case 3 then show ?thesis by (simp add: recent_def oldestSum_def h rotate5)
  next
    case 4 then show ?thesis by (simp add: recent_def oldestSum_def h rotate5)
  next
    case 5 then show ?thesis by (simp add: recent_def oldestSum_def h rotate5)
  qed
  show "length (recent s) = 5" by (simp add: recent_def h)
qed


lemma recent_cycle_state:
  assumes "wf s"
  shows "recent (cycle_state s \<lparr> lightStatus := b \<rparr>)
         = tl (recent s) @ [sumLoop 0 0 (AnalogArray s)]"
proof -
  obtain a b c d e where h: "sumHistory s = [a, b, c, d, e]"
    using assms by (rule wf_history5)
  show ?thesis
    using assms
  proof (cases rule: wf_position5)
    case 1 then show ?thesis by (simp add: recent_def cycle_state_def h HISTORY_SIZE_def rotate5)
  next
    case 2 then show ?thesis by (simp add: recent_def cycle_state_def h HISTORY_SIZE_def rotate5)
  next
    case 3 then show ?thesis by (simp add: recent_def cycle_state_def h HISTORY_SIZE_def rotate5)
  next
    case 4 then show ?thesis by (simp add: recent_def cycle_state_def h HISTORY_SIZE_def rotate5)
  next
    case 5 then show ?thesis by (simp add: recent_def cycle_state_def h HISTORY_SIZE_def rotate5)
  qed
qed

lemma recent_constant:
  assumes "wf s" and "list_all (\<lambda>h. sint h = B) (sumHistory s)"
  shows "map sint (recent s) = [B, B, B, B, B]"
proof -
  obtain a b c d e where h: "sumHistory s = [a, b, c, d, e]"
    using assms(1) by (rule wf_history5)
  have all: "sint a = B" "sint b = B" "sint c = B" "sint d = B" "sint e = B"
    using assms(2) by (simp_all add: h)
  show ?thesis
    using assms(1)
  proof (cases rule: wf_position5)
    case 1 then show ?thesis by (simp add: recent_def h all)
  next
    case 2 then show ?thesis by (simp add: recent_def h all)
  next
    case 3 then show ?thesis by (simp add: recent_def h all rotate5)
  next
    case 4 then show ?thesis by (simp add: recent_def h all rotate5)
  next
    case 5 then show ?thesis by (simp add: recent_def h all rotate5)
  qed
qed

section \<open>Bounds on the two percentages\<close>

lemma sdiv_abs_eq: "0 < (b::int) \<Longrightarrow> \<bar>a sdiv b\<bar> = \<bar>a\<bar> div b"
proof -
  assume b: "0 < b"
  have "0 \<le> \<bar>a\<bar> div b" using b by (simp add: pos_imp_zdiv_nonneg_iff)
  then show ?thesis using b by (simp add: signed_divide_int_def sgn_if abs_mult)
qed

lemma sdiv_abs_less:
  assumes "0 < (b::int)" and "\<bar>a\<bar> < c * b"
  shows "\<bar>a sdiv b\<bar> < c"
proof -
  have "0 \<le> \<bar>a\<bar> mod b" using assms(1) by simp
  moreover have "\<bar>a\<bar> = \<bar>a\<bar> div b * b + \<bar>a\<bar> mod b" by simp
  ultimately have "\<bar>a\<bar> div b * b \<le> \<bar>a\<bar>" by linarith
  then have "\<bar>a\<bar> div b * b < c * b" using assms(2) by linarith
  then have "\<bar>a\<bar> div b < c" using assms(1) by (simp add: mult_less_cancel_right)
  then show ?thesis using assms(1) by (simp add: sdiv_abs_eq)
qed

lemma sdiv_nonneg: "0 \<le> (a::int) \<Longrightarrow> 0 < b \<Longrightarrow> a sdiv b = a div b"
  by (cases "a = 0") (simp_all add: signed_divide_int_def sgn_if)

lemma sdiv_ge:
  assumes "0 < (b::int)" and "0 \<le> c" and "c * b \<le> a"
  shows "c \<le> a sdiv b"
proof -
  have "0 \<le> c * b" using assms(1,2) by simp
  then have a: "0 \<le> a" using assms(3) by linarith
  have "c = (c * b) div b" using assms(1) by simp
  also have "\<dots> \<le> a div b" using assms(3,1) by (rule zdiv_mono1)
  finally show ?thesis using a assms(1) by (simp add: sdiv_nonneg)
qed

lemma sdiv_minus: "(- a) sdiv (b::int) = - (a sdiv b)"
  by (simp add: signed_divide_int_def sgn_if)

section \<open>Whole windows\<close>

lemma readings_length: "length (readings w) = length w"
  by (simp add: readings_def)

text \<open>Serving a whole window from a state whose write position is 0: the state that results,
  and why.\<close>

lemma window_step:
  assumes wf: "wf s" and pos: "AnalogArrayPosition s = 0"
    and len: "length w = SizeOfAnalogArray"
    and p: "0 < sint (priorSum s)" and o: "0 < sint (oldestSum s)"
  defines "pct \<equiv> spec_percentChange (windowSum (readings w)) (sint (priorSum s))"
    and "rate \<equiv> spec_rateOfChange (windowSum (readings w)) (sint (oldestSum s))"
  shows "\<exists>s' out. run (window w) s = Inr (s', out)
     \<and> wf s' \<and> AnalogArrayPosition s' = 0
     \<and> historyFilled s' = primed_after s
     \<and> sint (priorSum s') = windowSum (readings w)
     \<and> map sint (recent s') = tl (map sint (recent s)) @ [windowSum (readings w)]
     \<and> wiggleSec s' = wiggleSec s \<and> nextWiggleTime s' = nextWiggleTime s
     \<and> lightStatus s' =
          (if primed_after s \<and> 15 < pct \<and> 5 < \<bar>rate\<bar> then True
           else if primed_after s \<and> pct < - 15 \<and> 5 < \<bar>rate\<bar> then False
           else lightStatus s)"
proof -
  let ?s1 = "s \<lparr> AnalogArray := readings w \<rparr>"
  obtain serial now r where l: "last w = (serial, now, r)" by (cases "last w")
  have run: "run (window w) s = classificationCycle serial now ?s1"
    using run_window [of s w] wf pos len l by (simp add: wf_def)
  have wf1: "wf ?s1" using wf len by (intro wf_load) (simp_all add: readings_length)
  have f: "priorSum ?s1 = priorSum s" "oldestSum ?s1 = oldestSum s"
    "primed_after ?s1 = primed_after s" "lightStatus ?s1 = lightStatus s"
    "recent ?s1 = recent s" "AnalogArray ?s1 = readings w"
    by (simp_all add: oldestSum_def primed_after_def recent_def)
  have pr: "cycle_percentChange ?s1 = pct" "cycle_rateOfChange ?s1 = rate"
    by (simp_all add: cycle_percentChange_def cycle_rateOfChange_def pct_def rate_def
        oldestSum_def)
  let ?b = "if primed_after s \<and> 15 < pct \<and> 5 < \<bar>rate\<bar> then True
           else if primed_after s \<and> pct < - 15 \<and> 5 < \<bar>rate\<bar> then False
           else lightStatus s"
  let ?s' = "cycle_state ?s1 \<lparr> lightStatus := ?b \<rparr>"
  obtain out where r: "classificationCycle serial now ?s1 = Inr (?s', out)"
    using classificationCycle_result [OF wf1, of serial now] p o
    unfolding f pr by auto
  have "wf ?s'" using wf1 by (rule wf_cycle_state)
  moreover have "AnalogArrayPosition ?s' = 0" using pos by (simp add: cycle_state_def)
  moreover have "historyFilled ?s' = primed_after s"
    by (simp add: cycle_state_def primed_after_def)
  moreover have "sint (priorSum ?s') = windowSum (readings w)"
    by (simp add: cycle_state_def sumLoop_sint)
  moreover have "map sint (recent ?s') = tl (map sint (recent s)) @ [windowSum (readings w)]"
    unfolding recent_cycle_state [OF wf1] f by (simp add: sumLoop_sint map_tl)
  moreover have "wiggleSec ?s' = wiggleSec s" "nextWiggleTime ?s' = nextWiggleTime s"
    by (simp_all add: cycle_state_def)
  moreover have "lightStatus ?s' = ?b" by simp
  ultimately show ?thesis using run r by metis
qed

section \<open>A light switch\<close>

lemma run_windows:
  assumes step: "\<And>k t. k < length ws \<Longrightarrow> J k t \<Longrightarrow>
                   \<exists>t' out. run (window (ws ! k)) t = Inr (t', out) \<and> J (Suc k) t'"
    and init: "J 0 s" and "k \<le> length ws"
  shows "\<exists>t out. run (concat (map window (take k ws))) s = Inr (t, out) \<and> J k t"
  using assms(3)
proof (induction k)
  case 0
  then show ?case using init by simp
next
  case (Suc k)
  then have k: "k < length ws" by simp
  from Suc obtain t out where t: "run (concat (map window (take k ws))) s = Inr (t, out)" "J k t"
    by auto
  from step [OF k t(2)] obtain t' out' where
    t': "run (window (ws ! k)) t = Inr (t', out')" "J (Suc k) t'" by auto
  have "take (Suc k) ws = take k ws @ [ws ! k]"
    using k by (rule take_Suc_conv_app_nth)
  then have "run (concat (map window (take (Suc k) ws))) s = Inr (t', out @ out')"
    using t(1) t'(1) by (simp add: run_append)
  then show ?case using t'(2) by blast
qed

lemma oldest_in_recent: "wf s \<Longrightarrow> sint (oldestSum s) \<in> set (map sint (recent s))"
  using recent_hd(1) [of s] by (metis list.set_intros(1) list.simps(9))

lemma set_tl_append: "set (tl xs @ [y]) \<subseteq> insert y (set xs)"
  by (cases xs) auto

lemma recent_set: "set (map sint (recent s)) = sint ` set (sumHistory s)"
  by (simp add: recent_def)

text \<open>
  Claim C6. Let the history be primed, let the previous window sum be a positive baseline
  \<open>B\<close> and let no sum in the history be above \<open>B\<close>. If the next window sums to \<open>1.3 * B\<close>
  and so do all windows after it, then the flag is true after the first of these windows
  and after each later one; and however the run goes on from there, the flag stays true
  as long as no completed window is a sudden-change OFF classification.
\<close>

theorem light_switch_sets_flag:
  assumes "wf s" and "AnalogArrayPosition s = 0" and "historyFilled s"
    and "0 < B" and "sint (priorSum s) = B"
    and "list_all (\<lambda>h. 0 < sint h \<and> sint h \<le> B) (sumHistory s)"
    and "\<forall>w \<in> set ws. length w = SizeOfAnalogArray \<and> windowSum (readings w) * 10 = 13 * B"
    and "0 < k" and "k \<le> length ws"
  shows "\<exists>s' out. run (concat (map window (take k ws))) s = Inr (s', out) \<and> lightStatus s'
     \<and> (\<forall>ins t out'. run ins s' = Inr (t, out') \<and> never_off ins s' \<longrightarrow> lightStatus t)"
proof -
  define low where "low = (\<lambda>t. \<forall>x \<in> set (map sint (recent t)). 0 < x \<and> x \<le> B)"
  define pos where "pos = (\<lambda>t. \<forall>x \<in> set (map sint (recent t)). 0 < x)"
  define J where "J = (\<lambda>(k::nat) t.
     wf t \<and> AnalogArrayPosition t = 0 \<and> historyFilled t \<and>
     (if k = 0 then sint (priorSum t) = B \<and> low t
      else lightStatus t \<and> sint (priorSum t) * 10 = 13 * B \<and> pos t))"
  have low_pos: "pos t" if "low t" for t
    using that unfolding low_def pos_def by blast
  have step: "\<exists>t' out. run (window (ws ! j)) t = Inr (t', out) \<and> J (Suc j) t'"
    if j: "j < length ws" and Jt: "J j t" for j t
  proof -
    let ?W = "windowSum (readings (ws ! j))"
    have w: "length (ws ! j) = SizeOfAnalogArray" "?W * 10 = 13 * B"
      using assms(7) j by simp_all
    have wft: "wf t" "AnalogArrayPosition t = 0" "historyFilled t"
      using Jt by (simp_all add: J_def)
    have primed: "primed_after t" using wft(3) by (simp add: primed_after_def)
    have Wpos: "0 < ?W" using w(2) assms(4) by linarith
    have post: "pos t" using Jt low_pos by (auto simp: J_def split: if_splits)
    have opos: "0 < sint (oldestSum t)"
      using oldest_in_recent [OF wft(1)] post unfolding pos_def by blast
    have ppos: "0 < sint (priorSum t)"
      using Jt assms(4) by (auto simp: J_def split: if_splits)
    from window_step [OF wft(1,2) w(1) ppos opos]
    obtain t' out where r: "run (window (ws ! j)) t = Inr (t', out)"
      and t': "wf t'" "AnalogArrayPosition t' = 0" "historyFilled t' = primed_after t"
        "sint (priorSum t') = ?W"
        "map sint (recent t') = tl (map sint (recent t)) @ [?W]"
      and flag: "lightStatus t' =
          (if primed_after t \<and> 15 < spec_percentChange ?W (sint (priorSum t))
                \<and> 5 < \<bar>spec_rateOfChange ?W (sint (oldestSum t))\<bar> then True
           else if primed_after t \<and> spec_percentChange ?W (sint (priorSum t)) < - 15
                \<and> 5 < \<bar>spec_rateOfChange ?W (sint (oldestSum t))\<bar> then False
           else lightStatus t)"
      by blast
    have rec: "pos t'"
      unfolding pos_def
    proof
      fix x assume "x \<in> set (map sint (recent t'))"
      then have "x = ?W \<or> x \<in> set (map sint (recent t))"
        unfolding t'(5) using set_tl_append [of "map sint (recent t)" ?W] by auto
      then show "0 < x" using Wpos post unfolding pos_def by blast
    qed
    have "lightStatus t'"
    proof (cases "j = 0")
      case True
      then have P: "sint (priorSum t) = B" and lo: "low t"
        using Jt by (simp_all add: J_def)
      have O: "sint (oldestSum t) \<le> B"
        using oldest_in_recent [OF wft(1)] lo unfolding low_def by blast
      have "16 \<le> spec_percentChange ?W B"
        unfolding spec_percentChange_def using assms(4) w(2) by (intro sdiv_ge) simp_all
      moreover have "6 \<le> spec_rateOfChange ?W (sint (oldestSum t))"
        unfolding spec_rateOfChange_def using opos O w(2) by (intro sdiv_ge) simp_all
      ultimately show ?thesis using flag primed P by simp
    next
      case False
      then have L: "lightStatus t" and P: "sint (priorSum t) * 10 = 13 * B"
        using Jt by (simp_all add: J_def)
      have "sint (priorSum t) = ?W" using P w(2) by linarith
      then have "spec_percentChange ?W (sint (priorSum t)) = 0"
        by (simp add: spec_percentChange_def)
      then show ?thesis using flag L by simp
    qed
    then have "J (Suc j) t'"
      using t' primed rec w(2) by (simp add: J_def)
    then show ?thesis using r by blast
  qed
  have "low s"
    using assms(6) unfolding low_def recent_set by (auto simp: list_all_iff)
  then have "J 0 s" using assms(1,2,3,5) by (simp add: J_def)
  from run_windows [of ws J, OF step this assms(9)]
  obtain s' out where r: "run (concat (map window (take k ws))) s = Inr (s', out)"
    and j: "J k s'" by blast
  have f: "wf s'" "lightStatus s'" using j assms(8) by (simp_all add: J_def)
  have "lightStatus t" if "run ins s' = Inr (t, out')" "never_off ins s'" for ins t out'
    using run_keeps_flag [OF f that] .
  then show ?thesis using r f(2) by blast
qed

theorem light_switch_sets_flag_witness:
  "wf switch_example \<and> AnalogArrayPosition switch_example = 0 \<and> historyFilled switch_example
   \<and> \<not> lightStatus switch_example
   \<and> sint (priorSum switch_example) = 50000
   \<and> list_all (\<lambda>h. 0 < sint h \<and> sint h \<le> 50000) (sumHistory switch_example)
   \<and> list_all (\<lambda>w. length w = SizeOfAnalogArray \<and> windowSum (readings w) * 10 = 13 * 50000)
        (replicate 3 (replicate SizeOfAnalogArray (True, 0, 650)))
   \<and> (\<exists>s' out.
         run (concat (map window (take 3 (replicate 3 (replicate SizeOfAnalogArray (True, 0, 650))))))
             switch_example = Inr (s', out)
         \<and> lightStatus s')"
proof -
  have h: "wf switch_example" "AnalogArrayPosition switch_example = 0"
    "historyFilled switch_example" "(0::int) < 50000" "sint (priorSum switch_example) = 50000"
    "list_all (\<lambda>h. 0 < sint h \<and> sint h \<le> 50000) (sumHistory switch_example)"
    by (simp_all add: switch_example_def wf_def sum_ok_def list_all_length
        SizeOfAnalogArray_def HISTORY_SIZE_def)
  have w: "\<forall>w \<in> set (replicate 3 (replicate SizeOfAnalogArray (True, 0, 650))).
         length w = SizeOfAnalogArray \<and> windowSum (readings w) * 10 = 13 * 50000"
    using windowSum_replicate [of 650] by (simp add: readings_replicate)
  have n: "\<not> lightStatus switch_example" by (simp add: switch_example_def)
  show ?thesis
    using light_switch_sets_flag [OF h w, of 3] h w n by (simp add: list_all_iff) blast
qed

section \<open>Linear drift\<close>

lemma level_step: "0 \<le> i \<Longrightarrow> level d dir (i + 1) = level d dir i + dir * d"
  by (simp add: level_def algebra_simps)

lemma level_up: "0 < d \<Longrightarrow> 100 * d \<le> level d 1 i"
proof -
  assume "0 < d"
  then have "100 * d \<le> (100 + max 0 i) * d" by (intro mult_right_mono) simp_all
  then show ?thesis by (simp add: level_def)
qed

lemma level_down: "0 < d \<Longrightarrow> i \<le> m \<Longrightarrow> 0 \<le> m \<Longrightarrow> (100 - m) * d \<le> level d (- 1) i"
proof -
  assume "0 < d" "i \<le> m" "0 \<le> m"
  then have "(100 - m) * d \<le> (100 - max 0 i) * d" by (intro mult_right_mono) simp_all
  then show ?thesis by (simp add: level_def)
qed

lemma level_span:
  assumes "0 < d" and "dir = 1 \<or> dir = - 1" and "0 \<le> k"
  shows "\<bar>level d dir (k + 1) - level d dir (k - 4)\<bar> \<le> 5 * d"
proof -
  have "level d dir (k + 1) - level d dir (k - 4) = dir * ((k + 1 - max 0 (k - 4)) * d)"
    using assms(3) by (simp add: level_def algebra_simps)
  moreover have "0 \<le> (k + 1 - max 0 (k - 4)) * d" using assms(1,3) by simp
  moreover have "(k + 1 - max 0 (k - 4)) * d \<le> 5 * d"
    using assms(1,3) by (intro mult_right_mono) simp_all
  ultimately show ?thesis using assms(2) by auto
qed

lemma uint_of_nat_small: "n < 65536 \<Longrightarrow> uint (of_nat n :: 16 word) = int n"
  by (simp add: unsigned_of_nat take_bit_nat_eq_self)


lemma drift_cycle:
  assumes d: "0 < d" and dir: "dir = 1 \<or> (dir = - 1 \<and> k < 94)"
  shows "0 < level d dir (int k)" and "0 < level d dir (int k - 4)"
    and "\<bar>spec_percentChange (level d dir (int k + 1)) (level d dir (int k))\<bar> \<le> 15"
    and "dir = 1 \<or> k < 88 \<Longrightarrow>
         \<bar>spec_rateOfChange (level d dir (int k + 1)) (level d dir (int k - 4))\<bar> \<le> 5"
proof -
  have lo: "7 * d \<le> level d dir (int k)" "7 * d \<le> level d dir (int k - 4)"
  proof -
    show "7 * d \<le> level d dir (int k)"
      using dir level_up [OF d, of "int k"] level_down [OF d, of "int k" 93] d by auto
    show "7 * d \<le> level d dir (int k - 4)"
      using dir level_up [OF d, of "int k - 4"] level_down [OF d, of "int k - 4" 93] d by auto
  qed
  show p: "0 < level d dir (int k)" and o: "0 < level d dir (int k - 4)"
    using lo d by linarith+
  have "\<bar>(level d dir (int k + 1) - level d dir (int k)) * 100\<bar> = 100 * d"
    using dir d by (auto simp: level_step)
  then have "\<bar>(level d dir (int k + 1) - level d dir (int k)) * 100\<bar> < 16 * level d dir (int k)"
    using lo(1) d by linarith
  then have "\<bar>spec_percentChange (level d dir (int k + 1)) (level d dir (int k))\<bar> < 16"
    unfolding spec_percentChange_def by (intro sdiv_abs_less p)
  then show "\<bar>spec_percentChange (level d dir (int k + 1)) (level d dir (int k))\<bar> \<le> 15"
    by simp
  show "\<bar>spec_rateOfChange (level d dir (int k + 1)) (level d dir (int k - 4))\<bar> \<le> 5"
    if slow: "dir = 1 \<or> k < 88"
  proof -
    have big: "17 * d \<le> level d dir (int k - 4)"
      using slow dir level_up [OF d, of "int k - 4"] level_down [OF d, of "int k - 4" 83] d
      by auto
    have "\<bar>level d dir (int k + 1) - level d dir (int k - 4)\<bar> \<le> 5 * d"
      using dir by (intro level_span d) auto
    then have "\<bar>(level d dir (int k + 1) - level d dir (int k - 4)) * 100\<bar>
        < 6 * (level d dir (int k - 4) * 5)"
      using big d by (simp add: abs_mult)
    then have "\<bar>spec_rateOfChange (level d dir (int k + 1)) (level d dir (int k - 4))\<bar> < 6"
      unfolding spec_rateOfChange_def using o by (intro sdiv_abs_less) simp_all
    then show ?thesis by simp
  qed
qed

lemma drift_window:
  assumes d: "0 < d" and dir: "dir = 1 \<or> (dir = - 1 \<and> k < 94)"
    and t: "on_drift d dir flag k t"
    and w: "length w = SizeOfAnalogArray" "windowSum (readings w) = level d dir (int k + 1)"
  shows "\<exists>t' out. run (window w) t = Inr (t', out) \<and> on_drift d dir flag (Suc k) t'"
proof -
  have wft: "wf t" "AnalogArrayPosition t = 0" "historyFilled t"
    and P: "sint (priorSum t) = level d dir (int k)"
    and R: "map sint (recent t) =
        [level d dir (int k - 4), level d dir (int k - 3), level d dir (int k - 2),
         level d dir (int k - 1), level d dir (int k)]"
    using t by (simp_all add: on_drift_def)
  have "map sint (recent t) = sint (oldestSum t) # map sint (tl (recent t))"
    using recent_hd(1) [OF wft(1)] by (metis list.simps(9))
  then have O: "sint (oldestSum t) = level d dir (int k - 4)" using R by simp
  note c = drift_cycle [OF d dir]
  from window_step [OF wft(1,2) w(1), unfolded P O w(2), OF c(1,2)]
  obtain t' out where r: "run (window w) t = Inr (t', out)"
    and t': "wf t'" "AnalogArrayPosition t' = 0" "historyFilled t' = primed_after t"
      "sint (priorSum t') = level d dir (int k + 1)"
      "map sint (recent t') = tl (map sint (recent t)) @ [level d dir (int k + 1)]"
    and flag: "lightStatus t' =
        (if primed_after t \<and> 15 < spec_percentChange (level d dir (int k + 1)) (level d dir (int k))
              \<and> 5 < \<bar>spec_rateOfChange (level d dir (int k + 1)) (level d dir (int k - 4))\<bar>
         then True
         else if primed_after t
              \<and> spec_percentChange (level d dir (int k + 1)) (level d dir (int k)) < - 15
              \<and> 5 < \<bar>spec_rateOfChange (level d dir (int k + 1)) (level d dir (int k - 4))\<bar>
         then False
         else lightStatus t)"
    by blast
  have "lightStatus t' = lightStatus t" using flag c(3) by auto
  moreover have "primed_after t" using wft(3) by (simp add: primed_after_def)
  moreover have "int (Suc k) = int k + 1" by simp
  ultimately have "on_drift d dir flag (Suc k) t'"
    using t' t unfolding on_drift_def R
    by (simp add: algebra_simps)
  then show ?thesis using r by blast
qed

lemma drift_start:
  assumes "wf s" and "AnalogArrayPosition s = 0" and "historyFilled s"
    and "sint (priorSum s) = 100 * d"
    and "list_all (\<lambda>h. sint h = 100 * d) (sumHistory s)"
  shows "on_drift d dir (lightStatus s) 0 s"
  using assms recent_constant [OF assms(1,5)]
  by (simp add: on_drift_def level_def)

lemma drift_state:
  assumes d: "0 < d" and dir: "dir = 1 \<or> (dir = - 1 \<and> length ws \<le> 94)"
    and s: "on_drift d dir flag 0 s"
    and ws: "\<forall>j < length ws. length (ws ! j) = SizeOfAnalogArray
               \<and> windowSum (readings (ws ! j)) = level d dir (int j + 1)"
    and k: "k \<le> length ws"
  shows "\<exists>t out. run (concat (map window (take k ws))) s = Inr (t, out) \<and> on_drift d dir flag k t"
proof (rule run_windows [where J = "on_drift d dir flag", OF _ s k])
  fix j t
  assume j: "j < length ws" and t: "on_drift d dir flag j t"
  have "dir = 1 \<or> (dir = - 1 \<and> j < 94)" using dir j by auto
  then show "\<exists>t' out. run (window (ws ! j)) t = Inr (t', out) \<and> on_drift d dir flag (Suc j) t'"
    using ws j by (intro drift_window [OF d _ t]) simp_all
qed

section \<open>The dusk trace\<close>

lemma dusk_trace_length: "length dusk_trace = 95"
  by (simp add: dusk_trace_def)

lemma dusk_trace_nth:
  assumes "j < 95"
  shows "length (dusk_trace ! j) = SizeOfAnalogArray"
    and "windowSum (readings (dusk_trace ! j)) = (99 - int j) * 100"
proof -
  have n: "dusk_trace ! j = replicate SizeOfAnalogArray (False, 0, of_nat (99 - j))"
    using assms by (simp add: dusk_trace_def)
  show "length (dusk_trace ! j) = SizeOfAnalogArray" by (simp add: n)
  have "uint (of_nat (99 - j) :: 16 word) = int (99 - j)"
    by (rule uint_of_nat_small) simp
  then show "windowSum (readings (dusk_trace ! j)) = (99 - int j) * 100"
    using assms by (simp add: n readings_replicate windowSum_replicate of_nat_diff)
qed

lemma dusk_start_on_drift: "on_drift 100 (- 1) True 0 dusk_start"
proof -
  have "on_drift 100 (- 1) (lightStatus dusk_start) 0 dusk_start"
    by (rule drift_start)
       (simp_all add: dusk_start_def wf_def sum_ok_def list_all_length
          SizeOfAnalogArray_def HISTORY_SIZE_def)
  then show ?thesis by (simp add: dusk_start_def)
qed

lemma dusk_prefix:
  assumes "on_drift 100 (- 1) True 0 s" and "k \<le> 94"
  shows "\<exists>t out. run (concat (map window (take k dusk_trace))) s = Inr (t, out)
           \<and> on_drift 100 (- 1) True k t"
proof -
  let ?ws = "take 94 dusk_trace"
  have len: "length ?ws = 94" by (simp add: dusk_trace_length)
  have ws: "\<forall>j < length ?ws. length (?ws ! j) = SizeOfAnalogArray
               \<and> windowSum (readings (?ws ! j)) = level 100 (- 1) (int j + 1)"
    using dusk_trace_nth by (simp add: dusk_trace_length level_def)
  have "\<exists>t out. run (concat (map window (take k ?ws))) s = Inr (t, out)
           \<and> on_drift 100 (- 1) True k t"
    using assms(2) by (intro drift_state [OF _ _ assms(1) ws]) (simp_all add: dusk_trace_length)
  moreover have "take k ?ws = take k dusk_trace" using assms(2) by (simp add: min_def)
  ultimately show ?thesis by simp
qed

lemma dusk_from:
  assumes "on_drift 100 (- 1) True 0 s"
  shows "\<exists>t out. run (concat (map window dusk_trace)) s = Inr (t, out) \<and> \<not> lightStatus t"
proof -
  obtain t out where r: "run (concat (map window (take 94 dusk_trace))) s = Inr (t, out)"
    and t: "on_drift 100 (- 1) True 94 t"
    using dusk_prefix [OF assms, of 94] by auto
  have wft: "wf t" "AnalogArrayPosition t = 0" "historyFilled t" "lightStatus t"
    and P: "sint (priorSum t) = 600"
    and R: "map sint (recent t) = [1000, 900, 800, 700, 600]"
    using t by (simp_all add: on_drift_def level_def)
  have "map sint (recent t) = sint (oldestSum t) # map sint (tl (recent t))"
    using recent_hd(1) [OF wft(1)] by (metis list.simps(9))
  then have O: "sint (oldestSum t) = 1000" using R by simp
  have W: "length (dusk_trace ! 94) = SizeOfAnalogArray"
    "windowSum (readings (dusk_trace ! 94)) = 500"
    using dusk_trace_nth [of 94] by simp_all
  have pct: "spec_percentChange 500 600 = - 16"
    by (simp add: spec_percentChange_def signed_divide_int_def)
  have rate: "spec_rateOfChange 500 1000 = - 10"
    by (simp add: spec_rateOfChange_def signed_divide_int_def)
  have primed: "primed_after t" using wft(3) by (simp add: primed_after_def)
  from window_step [OF wft(1,2) W(1), unfolded P O W(2) pct rate]
  obtain t' out' where r': "run (window (dusk_trace ! 94)) t = Inr (t', out')"
    and off: "\<not> lightStatus t'"
    using primed by auto
  have split: "take (Suc 94) dusk_trace = take 94 dusk_trace @ [dusk_trace ! 94]"
    by (rule take_Suc_conv_app_nth) (simp add: dusk_trace_length)
  have all: "take (Suc 94) dusk_trace = dusk_trace" by (simp add: dusk_trace_length)
  have "concat (map window (take (Suc 94) dusk_trace))
      = concat (map window (take 94 dusk_trace)) @ window (dusk_trace ! 94)"
    unfolding split by simp
  then have "concat (map window dusk_trace)
      = concat (map window (take 94 dusk_trace)) @ window (dusk_trace ! 94)"
    unfolding all .
  then have "run (concat (map window dusk_trace)) s = Inr (t', out @ out')"
    using r r' by (simp only: run_append sum.case prod.case)
  then show ?thesis using off by blast
qed

section \<open>From power-on to the start of the dusk\<close>

lemma classificationCycle_position:
  "classificationCycle serial now s = Inr (s', out) \<Longrightarrow>
   historyPosition s' = (historyPosition s + 1) mod HISTORY_SIZE"
  by (auto simp: classificationCycle_def Let_def split: if_splits)

lemma window_position:
  assumes "wf s" and "AnalogArrayPosition s = 0" and "length w = SizeOfAnalogArray"
    and "run (window w) s = Inr (s', out)"
  shows "historyPosition s' = (historyPosition s + 1) mod HISTORY_SIZE"
proof -
  obtain serial now r where l: "last w = (serial, now, r)" by (cases "last w")
  have "run (window w) s = classificationCycle serial now (s \<lparr> AnalogArray := readings w \<rparr>)"
    using run_window [of s w] assms(1,2,3) l by (simp add: wf_def)
  then show ?thesis using classificationCycle_position [of serial now _ s' out] assms(4) by simp
qed

lemma steady_step:
  assumes "wf t" and "AnalogArrayPosition t = 0" and "lightStatus t"
    and "0 < sint (priorSum t)" and "sint (priorSum t) \<le> 10000"
    and "map sint (recent t) = a # rest" and "0 < a"
  shows "\<exists>t' out. run (window steady_window) t = Inr (t', out)
     \<and> wf t' \<and> AnalogArrayPosition t' = 0 \<and> lightStatus t'
     \<and> sint (priorSum t') = 10000 \<and> map sint (recent t') = rest @ [10000]
     \<and> historyFilled t' = primed_after t
     \<and> historyPosition t' = (historyPosition t + 1) mod HISTORY_SIZE"
proof -
  have len: "length steady_window = SizeOfAnalogArray" by (simp add: steady_window_def)
  have W: "windowSum (readings steady_window) = 10000"
    using windowSum_replicate [of 100] by (simp add: steady_window_def readings_replicate)
  have "map sint (recent t) = sint (oldestSum t) # map sint (tl (recent t))"
    using recent_hd(1) [OF assms(1)] by (metis list.simps(9))
  then have O: "sint (oldestSum t) = a" using assms(6) by simp
  then have opos: "0 < sint (oldestSum t)" using assms(7) by simp
  from window_step [OF assms(1,2) len assms(4) opos, unfolded W]
  obtain t' out where r: "run (window steady_window) t = Inr (t', out)"
    and t': "wf t'" "AnalogArrayPosition t' = 0" "historyFilled t' = primed_after t"
      "sint (priorSum t') = 10000"
      "map sint (recent t') = tl (map sint (recent t)) @ [10000]"
    and flag: "lightStatus t' =
        (if primed_after t \<and> 15 < spec_percentChange 10000 (sint (priorSum t))
              \<and> 5 < \<bar>spec_rateOfChange 10000 (sint (oldestSum t))\<bar>
         then True
         else if primed_after t \<and> spec_percentChange 10000 (sint (priorSum t)) < - 15
              \<and> 5 < \<bar>spec_rateOfChange 10000 (sint (oldestSum t))\<bar>
         then False
         else lightStatus t)"
    by blast
  have "0 \<le> spec_percentChange 10000 (sint (priorSum t))"
    unfolding spec_percentChange_def using assms(4,5) by (intro sdiv_ge) simp_all
  then have "lightStatus t'" using flag assms(3) by auto
  moreover have "historyPosition t' = (historyPosition t + 1) mod HISTORY_SIZE"
    using window_position [OF assms(1,2) len r] .
  ultimately show ?thesis using r t' assms(6) by simp
qed

lemma setup_recent:
  "map sint (recent (setup_sketch rd)) = replicate 5 (sint (priorSum (setup_sketch rd)))"
  by (simp add: recent_def setup_fields HISTORY_SIZE_def)

lemma steady_start:
  "\<exists>t out. run (concat (map window (replicate 5 steady_window))) (setup_sketch (\<lambda>k. 100))
             = Inr (t, out)
     \<and> on_drift 100 (- 1) True 0 t"
proof -
  let ?s0 = "setup_sketch (\<lambda>k. 100)"
  have p0: "sint (priorSum ?s0) = 5000" by (simp add: setup_initial_sum)
  have r0: "map sint (recent ?s0) = [5000, 5000, 5000, 5000, 5000]"
    by (simp add: setup_recent p0 eval_nat_numeral)
  have f0: "wf ?s0" "AnalogArrayPosition ?s0 = 0" "lightStatus ?s0" "historyPosition ?s0 = 0"
    "\<not> historyFilled ?s0"
    by (simp_all add: wf_setup setup_fields)
  from steady_step [OF f0(1,2,3) _ _ r0] p0
  obtain t1 o1 where s1: "run (window steady_window) ?s0 = Inr (t1, o1)"
    and f1: "wf t1" "AnalogArrayPosition t1 = 0" "lightStatus t1" "sint (priorSum t1) = 10000"
      "map sint (recent t1) = [5000, 5000, 5000, 5000, 10000]"
      "historyFilled t1 = primed_after ?s0" "historyPosition t1 = 1"
    using f0(4) by (auto simp: HISTORY_SIZE_def)
  from steady_step [OF f1(1,2,3) _ _ f1(5)] f1(4)
  obtain t2 o2 where s2: "run (window steady_window) t1 = Inr (t2, o2)"
    and f2: "wf t2" "AnalogArrayPosition t2 = 0" "lightStatus t2" "sint (priorSum t2) = 10000"
      "map sint (recent t2) = [5000, 5000, 5000, 10000, 10000]"
      "historyPosition t2 = 2"
    using f1(7) by (auto simp: HISTORY_SIZE_def)
  from steady_step [OF f2(1,2,3) _ _ f2(5)] f2(4)
  obtain t3 o3 where s3: "run (window steady_window) t2 = Inr (t3, o3)"
    and f3: "wf t3" "AnalogArrayPosition t3 = 0" "lightStatus t3" "sint (priorSum t3) = 10000"
      "map sint (recent t3) = [5000, 5000, 10000, 10000, 10000]"
      "historyPosition t3 = 3"
    using f2(6) by (auto simp: HISTORY_SIZE_def)
  from steady_step [OF f3(1,2,3) _ _ f3(5)] f3(4)
  obtain t4 o4 where s4: "run (window steady_window) t3 = Inr (t4, o4)"
    and f4: "wf t4" "AnalogArrayPosition t4 = 0" "lightStatus t4" "sint (priorSum t4) = 10000"
      "map sint (recent t4) = [5000, 10000, 10000, 10000, 10000]"
      "historyPosition t4 = 4"
    using f3(6) by (auto simp: HISTORY_SIZE_def)
  from steady_step [OF f4(1,2,3) _ _ f4(5)] f4(4)
  obtain t5 o5 where s5: "run (window steady_window) t4 = Inr (t5, o5)"
    and f5: "wf t5" "AnalogArrayPosition t5 = 0" "lightStatus t5" "sint (priorSum t5) = 10000"
      "map sint (recent t5) = [10000, 10000, 10000, 10000, 10000]"
      "historyFilled t5 = primed_after t4"
    by auto
  have "historyFilled t5" using f5(6) f4(6) by (simp add: primed_after_def HISTORY_SIZE_def)
  then have d: "on_drift 100 (- 1) True 0 t5"
    using f5 by (simp add: on_drift_def level_def)
  have "run (concat (map window (replicate 5 steady_window))) ?s0
      = Inr (t5, o1 @ o2 @ o3 @ o4 @ o5)"
    using s1 s2 s3 s4 s5 by (simp add: eval_nat_numeral run_append)
  then show ?thesis using d by blast
qed

text \<open>
  Claim C5, as amended. Let the history be primed and let the previous window sum and
  all five history sums be the baseline \<open>100 * d\<close>. If the window sums then move by \<open>d\<close> per
  cycle, upwards for any number of cycles or downwards for at most 94 cycles, the flag
  keeps its value after every cycle: the magnitude test fails in each of them
  (\<open>\<bar>percentChange\<bar> \<le> 15\<close>), and the rate test fails too (\<open>\<bar>rateOfChange\<bar> \<le> 5\<close>) in every cycle
  of an upward drift and in the first 88 cycles of a downward one.
\<close>

theorem linear_drift_keeps_flag:
  assumes "wf s" and "AnalogArrayPosition s = 0" and "historyFilled s"
    and "0 < d" and "sint (priorSum s) = 100 * d"
    and "list_all (\<lambda>h. sint h = 100 * d) (sumHistory s)"
    and "dir = 1 \<or> (dir = - 1 \<and> length ws \<le> 94)"
    and "\<forall>j < length ws. length (ws ! j) = SizeOfAnalogArray
           \<and> windowSum (readings (ws ! j)) = (100 + dir * (int j + 1)) * d"
    and "k \<le> length ws"
  shows "\<exists>s' out. run (concat (map window (take k ws))) s = Inr (s', out)
     \<and> lightStatus s' = lightStatus s
     \<and> (k < length ws \<longrightarrow>
          \<bar>cycle_percentChange (s' \<lparr> AnalogArray := readings (ws ! k) \<rparr>)\<bar> \<le> 15
          \<and> (dir = 1 \<or> k < 88 \<longrightarrow>
               \<bar>cycle_rateOfChange (s' \<lparr> AnalogArray := readings (ws ! k) \<rparr>)\<bar> \<le> 5))"
proof -
  have ws: "\<forall>j < length ws. length (ws ! j) = SizeOfAnalogArray
               \<and> windowSum (readings (ws ! j)) = level d dir (int j + 1)"
    using assms(8) by (simp add: level_def)
  from drift_state [OF assms(4,7) drift_start [OF assms(1,2,3,5,6)] ws assms(9)]
  obtain t out where r: "run (concat (map window (take k ws))) s = Inr (t, out)"
    and t: "on_drift d dir (lightStatus s) k t" by blast
  have wft: "wf t" and P: "sint (priorSum t) = level d dir (int k)"
    and R: "map sint (recent t) =
        [level d dir (int k - 4), level d dir (int k - 3), level d dir (int k - 2),
         level d dir (int k - 1), level d dir (int k)]"
    and L: "lightStatus t = lightStatus s"
    using t by (simp_all add: on_drift_def)
  have "map sint (recent t) = sint (oldestSum t) # map sint (tl (recent t))"
    using recent_hd(1) [OF wft] by (metis list.simps(9))
  then have O: "sint (oldestSum t) = level d dir (int k - 4)" using R by simp
  have "\<bar>cycle_percentChange (t \<lparr> AnalogArray := readings (ws ! k) \<rparr>)\<bar> \<le> 15
        \<and> (dir = 1 \<or> k < 88 \<longrightarrow>
             \<bar>cycle_rateOfChange (t \<lparr> AnalogArray := readings (ws ! k) \<rparr>)\<bar> \<le> 5)"
    if kk: "k < length ws"
  proof -
    have dk: "dir = 1 \<or> (dir = - 1 \<and> k < 94)" using assms(7) kk by auto
    have W: "windowSum (readings (ws ! k)) = level d dir (int k + 1)" using ws kk by simp
    have o: "oldestSum (t \<lparr> AnalogArray := readings (ws ! k) \<rparr>) = oldestSum t"
      by (simp add: oldestSum_def)
    show ?thesis
      using drift_cycle(3,4) [OF assms(4) dk]
      by (simp add: cycle_percentChange_def cycle_rateOfChange_def W P O o)
  qed
  then show ?thesis using r L by blast
qed

theorem linear_drift_keeps_flag_witness:
  "wf dusk_start \<and> AnalogArrayPosition dusk_start = 0 \<and> historyFilled dusk_start
   \<and> sint (priorSum dusk_start) = 100 * 100
   \<and> list_all (\<lambda>h. sint h = 100 * 100) (sumHistory dusk_start)
   \<and> length (take 20 dusk_trace) \<le> 94
   \<and> list_all (\<lambda>j. length (take 20 dusk_trace ! j) = SizeOfAnalogArray
         \<and> windowSum (readings (take 20 dusk_trace ! j)) = (100 + - 1 * (int j + 1)) * 100)
        [0..<length (take 20 dusk_trace)]
   \<and> (\<exists>s' out.
         run (concat (map window (take 19 (take 20 dusk_trace)))) dusk_start = Inr (s', out)
         \<and> lightStatus s'
         \<and> \<bar>cycle_percentChange (s' \<lparr> AnalogArray := readings (take 20 dusk_trace ! 19) \<rparr>)\<bar> \<le> 15
         \<and> \<bar>cycle_rateOfChange (s' \<lparr> AnalogArray := readings (take 20 dusk_trace ! 19) \<rparr>)\<bar> \<le> 5)"
proof -
  have h: "wf dusk_start" "AnalogArrayPosition dusk_start = 0" "historyFilled dusk_start"
    "(0::int) < 100" "sint (priorSum dusk_start) = 100 * 100"
    "list_all (\<lambda>h. sint h = 100 * 100) (sumHistory dusk_start)"
    by (simp_all add: dusk_start_def wf_def sum_ok_def list_all_length
        SizeOfAnalogArray_def HISTORY_SIZE_def)
  have len: "length (take 20 dusk_trace) = 20" by (simp add: dusk_trace_length)
  have dir: "(- 1::int) = 1 \<or> ((- 1::int) = - 1 \<and> length (take 20 dusk_trace) \<le> 94)"
    by (simp add: len)
  have ws: "\<forall>j < length (take 20 dusk_trace).
         length (take 20 dusk_trace ! j) = SizeOfAnalogArray
         \<and> windowSum (readings (take 20 dusk_trace ! j)) = (100 + - 1 * (int j + 1)) * 100"
    using dusk_trace_nth by (simp add: dusk_trace_length)
  have k: "19 \<le> length (take 20 dusk_trace)" unfolding len by simp
  have l: "lightStatus dusk_start" by (simp add: dusk_start_def)
  show ?thesis
    using linear_drift_keeps_flag [OF h dir ws k] h ws l len by (auto simp: list_all_iff)
qed

text \<open>
  Claim C5, as stated, fails on this input: the sensor reads 100 from power-on until the
  history is primed (five windows, each summing to 10000) and then falls by 1 per second.
  On the 95th cycle of this dusk the window sum falls from 600 to 500 while the sum evicted
  from the history is 1000, so \<open>percentChange = -16\<close> and \<open>rateOfChange = -10\<close>, and the
  cycle switches the flag off.
\<close>

theorem dusk_turns_flag_off:
  "flag_after (concat (map window (replicate 5 steady_window))) (setup_sketch (\<lambda>k. 100))
     = Some True
   \<and> flag_after (concat (map window (replicate 5 steady_window @ dusk_trace)))
         (setup_sketch (\<lambda>k. 100))
     = Some False"
proof -
  obtain t out where
    r: "run (concat (map window (replicate 5 steady_window))) (setup_sketch (\<lambda>k. 100))
          = Inr (t, out)"
    and t: "on_drift 100 (- 1) True 0 t"
    using steady_start by blast
  obtain t' out' where r': "run (concat (map window dusk_trace)) t = Inr (t', out')"
    and off: "\<not> lightStatus t'"
    using dusk_from [OF t] by blast
  have "run (concat (map window (replicate 5 steady_window @ dusk_trace)))
          (setup_sketch (\<lambda>k. 100)) = Inr (t', out @ out')"
    using r r' by (simp only: map_append concat_append run_append sum.case prod.case)
  moreover have "lightStatus t" using t by (simp add: on_drift_def)
  ultimately show ?thesis using r off by (simp add: flag_after_def)
qed

section \<open>What each routine touches\<close>

text \<open>
  \<open>lightStatus\<close> is the only global that both routines use: \<open>sendWiggle\<close> changes nothing
  but its two counters and reads nothing else but the flag, and \<open>readAnalogIntoArray\<close>
  neither reads nor writes the two counters.
\<close>

lemma frame_sendWiggle:
  "\<exists>a b. fst (sendWiggle serial rT rX rY s) = s \<lparr> wiggleSec := a, nextWiggleTime := b \<rparr>"
  by (simp add: sendWiggle_def Let_def) (metis (full_types) state.surjective state.update_convs(8,9))

lemma sendWiggle_reads:
  assumes "lightStatus s = lightStatus t" and "wiggleSec s = wiggleSec t"
    and "nextWiggleTime s = nextWiggleTime t"
  shows "snd (sendWiggle serial rT rX rY s) = snd (sendWiggle serial rT rX rY t)"
    and "wiggleSec (fst (sendWiggle serial rT rX rY s)) = wiggleSec (fst (sendWiggle serial rT rX rY t))"
    and "nextWiggleTime (fst (sendWiggle serial rT rX rY s))
         = nextWiggleTime (fst (sendWiggle serial rT rX rY t))"
  using assms by (simp_all add: sendWiggle_def Let_def)

lemma frame_readAnalogIntoArray:
  "readAnalogIntoArray serial now reading (s \<lparr> wiggleSec := a, nextWiggleTime := b \<rparr>)
   = map_sum id (\<lambda>(s', out). (s' \<lparr> wiggleSec := a, nextWiggleTime := b \<rparr>, out))
       (readAnalogIntoArray serial now reading s)"
  by (simp add: readAnalogIntoArray_def classificationCycle_def Let_def)

section \<open>Wiggling from power-on\<close>

text \<open>While the flag is true, a call of \<open>sendWiggle\<close> whose trigger fires requests the two
  movements of a wiggle.\<close>

lemma wiggle_when_lit:
  assumes "lightStatus s" and "fires s"
  shows "moves (snd (sendWiggle serial rT rX rY s)) =
           [((if rX = 0 then 1 else - 1), (if rY = 0 then 1 else - 1)),
            (- (if rX = 0 then 1 else - 1), - (if rY = 0 then 1 else - 1))]"
  using assms by (simp add: sendWiggle_def fires_def Let_def moves_append moves_println)

subsection \<open>Rooms that never read zero\<close>

text \<open>
  When no reading is 0, no window sum is 0, so neither divisor of the classification cycle
  is: \<open>live\<close> holds after \<open>setup_sketch\<close> as soon as one of its 50 readings is not 0, and both
  interrupt routines keep it. Every run in such a room returns.
\<close>

lemma windowSum_pos: "arr ! 0 \<noteq> 0 \<Longrightarrow> 0 < windowSum arr"
proof -
  assume nz: "arr ! 0 \<noteq> 0"
  have "uint (arr ! 0) \<le> (\<Sum>i = 0..<SizeOfAnalogArray. uint (arr ! i))"
    by (rule member_le_sum) (simp_all add: SizeOfAnalogArray_def)
  moreover have "uint (arr ! 0) \<noteq> 0" using nz by (simp add: unsigned_eq_0_iff)
  then have "0 < uint (arr ! 0)" by (simp add: order_less_le)
  ultimately show ?thesis by (simp add: windowSum_def)
qed

lemma live_sendWiggle: "live s \<Longrightarrow> live (fst (sendWiggle serial rT rX rY s))"
proof -
  assume l: "live s"
  obtain a b where "fst (sendWiggle serial rT rX rY s) = s \<lparr> wiggleSec := a, nextWiggleTime := b \<rparr>"
    using frame_sendWiggle by blast
  then show ?thesis using l by (simp add: live_def wf_def)
qed

lemma live_cycle:
  assumes "live s" and "AnalogArrayPosition s = 0" and "AnalogArray s ! 0 \<noteq> 0"
  shows "\<exists>s' out. classificationCycle serial now s = Inr (s', out) \<and> live s'
           \<and> AnalogArrayPosition s' = 0
           \<and> sint (priorSum s') = windowSum (AnalogArray s)
           \<and> lightStatus s' =
               (if primed_after s \<and> 15 < cycle_percentChange s \<and> 5 < \<bar>cycle_rateOfChange s\<bar>
                then True
                else if sudden_off s then False else lightStatus s)"
proof -
  have wf: "wf s" and p: "0 < sint (priorSum s)"
    and h: "list_all (\<lambda>h. 0 < sint h) (sumHistory s)"
    using assms(1) by (simp_all add: live_def)
  have hp: "historyPosition s < length (sumHistory s)" using wf by (simp add: wf_def)
  then have o: "0 < sint (oldestSum s)" using h by (simp add: oldestSum_def list_all_length)
  let ?x = "sumLoop 0 0 (AnalogArray s)"
  have x: "0 < sint ?x" using windowSum_pos [OF assms(3)] by (simp add: sumLoop_sint)
  obtain s' out where r: "classificationCycle serial now s = Inr (s', out)"
    and s': "s' = cycle_state s \<lparr> lightStatus := lightStatus s' \<rparr>"
    using classificationCycle_result [OF wf p o, of serial now] by auto
  have wf': "wf s'" using wf r by (rule wf_classificationCycle)
  have f: "priorSum s' = ?x" "sumHistory s' = (sumHistory s)[historyPosition s := ?x]"
    "AnalogArrayPosition s' = 0"
    using assms(2) by (subst s', simp add: cycle_state_def)+
  have "list_all (\<lambda>h. 0 < sint h) (sumHistory s')"
    using h x set_update_subset_insert [of "sumHistory s" "historyPosition s" ?x]
    unfolding f(2) list_all_iff by blast
  then have "live s'" using wf' x f by (simp add: live_def)
  then show ?thesis
    using r f(1,3) classificationCycle_lightStatus [OF wf r] by (simp add: sumLoop_sint)
qed

lemma live_readAnalogIntoArray:
  assumes "live s" and "reading \<noteq> 0"
  shows "\<exists>s' out. readAnalogIntoArray serial now reading s = Inr (s', out) \<and> live s'"
proof -
  let ?s1 = "s \<lparr> AnalogArray := (AnalogArray s)[AnalogArrayPosition s := reading],
                 AnalogArrayPosition := (AnalogArrayPosition s + 1) mod SizeOfAnalogArray \<rparr>"
  have wf: "wf s" using assms(1) by (simp add: live_def)
  have pos: "AnalogArrayPosition s < SizeOfAnalogArray" "length (AnalogArray s) = SizeOfAnalogArray"
    using wf by (simp_all add: wf_def)
  have slot0: "AnalogArray ?s1 ! 0 \<noteq> 0"
    using assms pos by (cases "AnalogArrayPosition s = 0") (simp_all add: live_def)
  have l1: "live ?s1"
    using assms(1) slot0 pos by (simp add: live_def wf_def)
  show ?thesis
  proof (cases "AnalogArrayPosition ?s1 = 0")
    case True
    from live_cycle [OF l1 True slot0, of serial now]
    show ?thesis using True pos by (auto simp: readAnalogIntoArray_def Let_def)
  next
    case False
    then show ?thesis using l1 pos by (simp add: readAnalogIntoArray_def Let_def)
  qed
qed

lemma live_isr:
  assumes "live s" and "reads_nonzero i"
  shows "\<exists>s' out. isr i s = Inr (s', out) \<and> live s'"
proof (cases i)
  case (Timer1 serial now reading)
  then show ?thesis using assms live_readAnalogIntoArray by simp
next
  case (Timer3 serial rT rX rY)
  then show ?thesis
    using live_sendWiggle [OF assms(1), of serial rT rX rY]
    by (cases "sendWiggle serial rT rX rY s") simp
qed

lemma run_total_invariant:
  assumes step: "\<And>i s. P s \<Longrightarrow> Q i \<Longrightarrow> \<exists>s' out. isr i s = Inr (s', out) \<and> P s'"
    and "P s" and "\<forall>i \<in> set ins. Q i"
  shows "\<exists>s' out. run ins s = Inr (s', out) \<and> P s'"
  using assms(2,3)
proof (induction ins arbitrary: s)
  case Nil
  then show ?case by simp
next
  case (Cons i ins)
  from step [OF Cons.prems(1), of i] Cons.prems(2)
  obtain s1 out1 where a: "isr i s = Inr (s1, out1)" "P s1" by auto
  from Cons.IH [OF a(2)] Cons.prems(2)
  obtain s2 out2 where b: "run ins s1 = Inr (s2, out2)" "P s2" by auto
  show ?case using a(1) b by simp
qed

lemma live_setup:
  assumes "k < 50" and "rd k \<noteq> 0"
  shows "live (setup_sketch rd)"
proof -
  have "uint (rd k) \<le> (\<Sum>j = 0..<50. uint (rd j))"
    using assms(1) by (intro member_le_sum) simp_all
  moreover have "uint (rd k) \<noteq> 0" using assms(2) by (simp add: unsigned_eq_0_iff)
  then have "0 < uint (rd k)" by (simp add: order_less_le)
  ultimately have p: "0 < sint (priorSum (setup_sketch rd))"
    by (simp add: setup_initial_sum)
  then show ?thesis
    using wf_setup [of rd]
    by (simp add: live_def setup_fields(2) setup_fields(9) list_all_length)
qed

lemma run_total_nonzero:
  assumes "k < 50" and "rd k \<noteq> 0" and "\<forall>i \<in> set ins. reads_nonzero i"
  shows "\<exists>s out. run ins (setup_sketch rd) = Inr (s, out) \<and> live s"
proof -
  have l: "live (setup_sketch rd)" using assms(1,2) by (rule live_setup)
  show ?thesis
    by (rule run_total_invariant [where P = live and Q = reads_nonzero, OF _ l assms(3)])
      (rule live_isr)
qed

text \<open>
  So in a room that never reads zero, a run of any length in which no completed window was
  a sudden-change OFF classification returns with the flag still true, and a trigger that
  fires then wiggles.
\<close>

lemma nonzero_room_wiggles:
  assumes "k < 50" and "rd k \<noteq> 0" and "\<forall>i \<in> set ins. reads_nonzero i"
    and "never_off ins (setup_sketch rd)"
  shows "\<exists>s out. run ins (setup_sketch rd) = Inr (s, out) \<and> lightStatus s
           \<and> (fires s \<longrightarrow>
                moves (snd (sendWiggle serial rT rX rY s)) =
                  [((if rX = 0 then 1 else - 1), (if rY = 0 then 1 else - 1)),
                   (- (if rX = 0 then 1 else - 1), - (if rY = 0 then 1 else - 1))])"
proof -
  obtain s out where r: "run ins (setup_sketch rd) = Inr (s, out)"
    using run_total_nonzero [of k rd ins] assms(1,2,3) by blast
  have "lightStatus s"
    using run_keeps_flag [OF wf_setup _ r assms(4)] by (simp add: setup_fields)
  then show ?thesis using r wiggle_when_lit by blast
qed

subsection \<open>A room at a constant reading\<close>

text \<open>
  In a room at a constant reading \<open>c\<close> other than 0, however low, no window is a
  sudden-change OFF classification: the first window sum is \<open>100 * c\<close> against the \<open>50 * c\<close>
  that \<open>setup_sketch\<close> leaves, and every later one equals its predecessor. Every run
  returns with the flag true, whatever its length: the wiggling goes on.
\<close>

lemma steady_percent:
  assumes "0 < p" and "p \<le> n"
  shows "\<not> spec_percentChange n p < - 15"
proof -
  have "0 \<le> (n - p) * 100" using assms(2) by simp
  then have "0 \<le> ((n - p) * 100) sdiv p"
    using assms(1) by (simp add: sdiv_nonneg pos_imp_zdiv_nonneg_iff)
  then show ?thesis by (simp add: spec_percentChange_def)
qed

lemma settled_sendWiggle: "settled c s \<Longrightarrow> settled c (fst (sendWiggle serial rT rX rY s))"
proof -
  assume l: "settled c s"
  obtain a b where "fst (sendWiggle serial rT rX rY s) = s \<lparr> wiggleSec := a, nextWiggleTime := b \<rparr>"
    using frame_sendWiggle by blast
  then show ?thesis using l by (simp add: settled_def live_def wf_def)
qed

lemma settled_readAnalogIntoArray:
  assumes "settled c s"
  shows "\<not> turns_off (Timer1 serial now c) s
         \<and> (\<exists>s' out. readAnalogIntoArray serial now c s = Inr (s', out) \<and> settled c s')"
proof -
  let ?arr = "(AnalogArray s)[AnalogArrayPosition s := c]"
  let ?s1 = "s \<lparr> AnalogArray := ?arr,
                 AnalogArrayPosition := (AnalogArrayPosition s + 1) mod SizeOfAnalogArray \<rparr>"
  have l: "live s" and flag: "lightStatus s" and le: "sint (priorSum s) \<le> 100 * uint c"
    and pre: "take (AnalogArrayPosition s) (AnalogArray s) = replicate (AnalogArrayPosition s) c"
    using assms by (simp_all add: settled_def)
  have wf: "wf s" and p: "0 < sint (priorSum s)" using l by (simp_all add: live_def)
  have pos: "AnalogArrayPosition s < SizeOfAnalogArray"
    and len: "length (AnalogArray s) = SizeOfAnalogArray"
    using wf by (simp_all add: wf_def)
  have "0 < uint c" using p le by linarith
  then have c: "c \<noteq> 0" by auto
  have "take (Suc (AnalogArrayPosition s)) ?arr = take (AnalogArrayPosition s) ?arr @ [?arr ! AnalogArrayPosition s]"
    using pos len by (intro take_Suc_conv_app_nth) simp
  also have "\<dots> = replicate (AnalogArrayPosition s) c @ [c]"
    using pos len pre by simp
  also have "\<dots> = replicate (Suc (AnalogArrayPosition s)) c"
    by (simp add: replicate_append_same)
  finally have pre1: "take (Suc (AnalogArrayPosition s)) ?arr = replicate (Suc (AnalogArrayPosition s)) c" .
  obtain s' out where r: "readAnalogIntoArray serial now c s = Inr (s', out)" and l': "live s'"
    using live_readAnalogIntoArray [OF l c] by blast
  show ?thesis
  proof (cases "AnalogArrayPosition s + 1 = SizeOfAnalogArray")
    case True
    then have p0: "AnalogArrayPosition ?s1 = 0" by simp
    have "take (length ?arr) ?arr = replicate SizeOfAnalogArray c"
      using pre1 True len by (simp only: length_list_update Suc_eq_plus1)
    then have full: "?arr = replicate SizeOfAnalogArray c" by (simp only: take_all order_refl)
    have cyc: "classificationCycle serial now ?s1 = Inr (s', out)"
      using r pos p0 by (simp add: readAnalogIntoArray_def Let_def)
    have l1: "live ?s1" using l True by (simp add: live_def wf_def)
    have s0: "AnalogArray ?s1 ! 0 \<noteq> 0" using c full by (simp add: SizeOfAnalogArray_def)
    have w: "windowSum (AnalogArray ?s1) = 100 * uint c"
      using full by (simp add: windowSum_replicate)
    have "\<not> cycle_percentChange ?s1 < - 15"
      using steady_percent [OF p le] w by (simp add: cycle_percentChange_def)
    then have no: "\<not> sudden_off ?s1" by (simp add: sudden_off_def)
    then have no': "\<not> sudden_off (s \<lparr> AnalogArray := ?arr \<rparr>)"
      by (simp add: sudden_off_def primed_after_def cycle_percentChange_def
          cycle_rateOfChange_def oldestSum_def)
    obtain t out' where t: "classificationCycle serial now ?s1 = Inr (t, out')"
      and tf: "AnalogArrayPosition t = 0" "sint (priorSum t) = windowSum (AnalogArray ?s1)"
        "lightStatus t =
           (if primed_after ?s1 \<and> 15 < cycle_percentChange ?s1 \<and> 5 < \<bar>cycle_rateOfChange ?s1\<bar>
            then True else if sudden_off ?s1 then False else lightStatus ?s1)"
      using live_cycle [OF l1 p0 s0, of serial now] by blast
    have "t = s'" using t cyc by simp
    then have "settled c s'"
      using l' tf no flag w by (simp add: settled_def)
    then show ?thesis using r no' by simp
  next
    case False
    then have lt: "AnalogArrayPosition s + 1 < SizeOfAnalogArray" using pos by simp
    then have "s' = ?s1"
      using r pos by (simp add: readAnalogIntoArray_def Let_def)
    then have "settled c s'"
      using l' flag le pre1 lt by (simp add: settled_def)
    then show ?thesis using r False by simp
  qed
qed

lemma settled_isr:
  assumes "settled c s" and "steady c i"
  shows "\<not> turns_off i s \<and> (\<exists>s' out. isr i s = Inr (s', out) \<and> settled c s')"
proof (cases i)
  case (Timer1 serial now reading)
  then show ?thesis using assms settled_readAnalogIntoArray [of c s serial now] by simp
next
  case (Timer3 serial rT rX rY)
  then show ?thesis
    using settled_sendWiggle [OF assms(1), of serial rT rX rY]
    by (cases "sendWiggle serial rT rX rY s") simp
qed

lemma settled_run:
  assumes "settled c s" and "\<forall>i \<in> set ins. steady c i"
  shows "never_off ins s \<and> (\<exists>s' out. run ins s = Inr (s', out) \<and> settled c s')"
  using assms
proof (induction ins arbitrary: s)
  case Nil
  then show ?case by simp
next
  case (Cons i ins)
  from settled_isr [OF Cons.prems(1), of i] Cons.prems(2)
  obtain s1 out1 where a: "\<not> turns_off i s" "isr i s = Inr (s1, out1)" "settled c s1" by auto
  from Cons.IH [OF a(3)] Cons.prems(2)
  obtain s2 out2 where b: "never_off ins s1" "run ins s1 = Inr (s2, out2)" "settled c s2" by auto
  show ?case using a(1,2) b by simp
qed

lemma settled_setup:
  assumes "c \<noteq> 0"
  shows "settled c (setup_sketch (\<lambda>k. c))"
proof -
  have "live (setup_sketch (\<lambda>k. c))" by (rule live_setup [of 0]) (simp_all add: assms)
  moreover have "sint (priorSum (setup_sketch (\<lambda>k. c))) = 50 * uint c"
    by (simp add: setup_initial_sum)
  ultimately show ?thesis by (simp add: settled_def setup_fields)
qed

lemma steady_room_wiggles:
  assumes "c \<noteq> 0" and "\<forall>i \<in> set ins. steady c i"
  shows "never_off ins (setup_sketch (\<lambda>k. c))
         \<and> (\<exists>s out. run ins (setup_sketch (\<lambda>k. c)) = Inr (s, out) \<and> lightStatus s
              \<and> (fires s \<longrightarrow>
                   moves (snd (sendWiggle serial rT rX rY s)) =
                     [((if rX = 0 then 1 else - 1), (if rY = 0 then 1 else - 1)),
                      (- (if rX = 0 then 1 else - 1), - (if rY = 0 then 1 else - 1))]))"
proof -
  obtain s out where n: "never_off ins (setup_sketch (\<lambda>k. c))"
    and r: "run ins (setup_sketch (\<lambda>k. c)) = Inr (s, out)" and st: "settled c s"
    using settled_run [OF settled_setup [OF assms(1)] assms(2)] by blast
  have "lightStatus s" using st by (simp add: settled_def)
  then show ?thesis using n r wiggle_when_lit by blast
qed

text \<open>For example, power-on at reading 3, seven seconds of readings of 3, then nine Timer3
  interrupts: the flag is true and the tenth Timer3 interrupt wiggles.\<close>

lemma readAnalogIntoArray_counters:
  "readAnalogIntoArray serial now reading s = Inr (s', out) \<Longrightarrow>
   wiggleSec s' = wiggleSec s \<and> nextWiggleTime s' = nextWiggleTime s"
  by (auto simp: readAnalogIntoArray_def classificationCycle_def Let_def split: if_splits)

lemma run_window_counters:
  "run (window w) s = Inr (s', out) \<Longrightarrow>
   wiggleSec s' = wiggleSec s \<and> nextWiggleTime s' = nextWiggleTime s"
proof (induction w arbitrary: s out)
  case Nil
  then show ?case by (simp add: window_def)
next
  case (Cons x w)
  obtain serial now reading where x: "x = (serial, now, reading)" by (cases x)
  from Cons.prems obtain s1 out1 out2 where
    a: "readAnalogIntoArray serial now reading s = Inr (s1, out1)"
    and b: "run (window w) s1 = Inr (s', out2)"
    by (auto simp: window_def x split: sum.splits prod.splits)
  show ?case using readAnalogIntoArray_counters [OF a] Cons.IH [OF b] by simp
qed

lemma ticks_idle:
  "wiggleSec s + int n < nextWiggleTime s \<Longrightarrow>
   run (replicate n (Timer3 serial rT rX rY)) s = Inr (s \<lparr> wiggleSec := wiggleSec s + int n \<rparr>, [])"
proof (induction n arbitrary: s)
  case 0
  then show ?case by simp
next
  case (Suc n)
  let ?s1 = "s \<lparr> wiggleSec := wiggleSec s + 1 \<rparr>"
  have a: "sendWiggle serial rT rX rY s = (?s1, [])"
    using Suc.prems by (simp add: sendWiggle_def Let_def)
  have "wiggleSec ?s1 + int n < nextWiggleTime ?s1" using Suc.prems by simp
  then have "run (replicate n (Timer3 serial rT rX rY)) ?s1
      = Inr (?s1 \<lparr> wiggleSec := wiggleSec ?s1 + int n \<rparr>, [])"
    by (rule Suc.IH)
  then show ?case using a by (simp add: add.assoc)
qed

lemma dim_room_example:
  "\<exists>s out. run (window (replicate 700 (True, 0, 3)) @ replicate 9 (Timer3 True 0 0 0))
              (setup_sketch (\<lambda>k. 3)) = Inr (s, out)
     \<and> never_off (window (replicate 700 (True, 0, 3)) @ replicate 9 (Timer3 True 0 0 0))
         (setup_sketch (\<lambda>k. 3))
     \<and> lightStatus s \<and> fires s
     \<and> moves (snd (sendWiggle True 0 0 1 s)) = [(1, - 1), (- 1, 1)]"
proof -
  let ?w = "window (replicate 700 (True, 0, 3))"
  let ?t = "replicate 9 (Timer3 True 0 0 0)"
  let ?s0 = "setup_sketch (\<lambda>k. 3)"
  have s0: "settled 3 ?s0" by (rule settled_setup) simp
  have "\<forall>i \<in> set (?w @ ?t). steady 3 i" by (auto simp: window_def)
  then have n: "never_off (?w @ ?t) ?s0" using settled_run [OF s0] by blast
  have "\<forall>i \<in> set ?w. steady 3 i" by (auto simp: window_def)
  then obtain s1 out1 where r1: "run ?w ?s0 = Inr (s1, out1)" and st: "settled 3 s1"
    using settled_run [OF s0] by blast
  have c: "wiggleSec s1 = 0" "nextWiggleTime s1 = 10"
    using run_window_counters [OF r1] by (simp_all add: setup_fields wigglePeriod_def)
  have "run ?t s1 = Inr (s1 \<lparr> wiggleSec := wiggleSec s1 + int 9 \<rparr>, [])"
    by (rule ticks_idle) (simp add: c)
  then have r: "run (?w @ ?t) ?s0 = Inr (s1 \<lparr> wiggleSec := 9 \<rparr>, out1)"
    using r1 c by (simp add: run_append)
  have l: "lightStatus (s1 \<lparr> wiggleSec := 9 \<rparr>)" using st by (simp add: settled_def)
  have f: "fires (s1 \<lparr> wiggleSec := 9 \<rparr>)" by (simp add: fires_def c)
  show ?thesis using r n l f wiggle_when_lit [OF l f, of True 0 0 1] by simp
qed

subsection \<open>A power-on at reading zero\<close>







end
